theory Spec2Isabelle
  imports Main
begin

section \<open>Values exchanged with the host\<close>

text \<open>
  The exceptions the model distinguishes. \<open>SubprocessError\<close> stands for
  \<open>subprocess.SubprocessError\<close> and its subclass \<open>CalledProcessError\<close>, \<open>OSError\<close> for
  the errors of file and process system calls, \<open>ValueError\<close> and \<open>NameError\<close> for the
  built-in exceptions of these names (the second is raised by the use of an unassigned
  local variable), and \<open>PyException\<close> for an explicit \<open>raise Exception(message)\<close>. All
  of these are subclasses of Python's \<open>Exception\<close>. \<open>SystemExit\<close> stands for the
  exceptions that are not (\<open>SystemExit\<close>, \<open>KeyboardInterrupt\<close>): a clause
  \<open>except Exception\<close> lets them pass, a bare \<open>except:\<close> catches them.
\<close>

datatype exn = SubprocessError | OSError | ValueError | NameError | PyException string | SystemExit

definition is_exception :: "exn \<Rightarrow> bool" where
  "is_exception e = (e \<noteq> SystemExit)"

text \<open>The values interpolated into an f-string of a log message.\<close>

datatype arg = S string | I int | E exn | Ss "string list"

text \<open>
  Command lines. \<open>Argv\<close> is a list-form command; the other constructors are the
  PowerShell command strings of the source with their interpolated parts:
  \<open>MountDiskImage p\<close> is \<open>Mount-DiskImage -ImagePath 'p' -PassThru | Get-Volume |
  Select-Object -ExpandProperty DriveLetter\<close>, \<open>DismountDiskImage p\<close> is
  \<open>Dismount-DiskImage -ImagePath 'p'\<close>, \<open>GetCommandNewIsoFile\<close> is
  \<open>Get-Command New-IsoFile -ErrorAction SilentlyContinue\<close>, \<open>DotSource f\<close> is \<open>. f\<close>
  and \<open>NewIsoFile f src dst label boot\<close> is
  \<open>. f; New-IsoFile -Source 'src' -Destination 'dst' -VolumeName 'label' boot\<close>.
\<close>

datatype command =
    Argv "string list"
  | MountDiskImage string
  | DismountDiskImage string
  | GetCommandNewIsoFile
  | DotSource string
  | NewIsoFile string string string string string

text \<open>
  A spawned subprocess: the lines of its standard output, the error that reading the
  output raises once these lines have been read (a decoding error, say), the error that
  \<open>terminate()\<close> raises, its exit code and its standard error.
\<close>

record process =
  stdout_lines :: "string list"
  read_error :: "exn option"
  terminate_error :: "exn option"
  returncode :: int
  stderr_text :: string

text \<open>
  What a run does, in order. \<open>Log m as p\<close> is one call of \<open>ISOBuilder.log\<close>
  (\<open>logger.info\<close> and the callback) with the f-string \<open>m\<close>, its interpolated values
  \<open>as\<close> and the optional progress \<open>p\<close>. The other events are the calls the code issues
  to the operating system and to the user interface, recorded when they are issued,
  whether they succeed or raise. \<open>AppLog\<close>, \<open>UpdateProgress\<close>, \<open>LoggerError\<close>, the message
  boxes (title, f-string, interpolated values) and \<open>ConfigButton\<close> are the calls of the
  application.
\<close>

datatype event =
    Log string "arg list" "int option"
  | Makedirs string
  | Popen command
  | Terminate
  | Wait
  | Run command
  | Copy2 string string
  | WriteFile string
  | ZipOpen string
  | ZipWrite string string
  | ZipClose
  | Unlink string
  | Rename string string
  | UrlRetrieve string string
  | ProgressCallback int
  | AppLog string "arg list"
  | UpdateProgress int
  | LoggerError string "arg list"
  | ShowInfo string string "arg list"
  | ShowError string string "arg list"
  | ConfigButton string string

text \<open>
  The mutable part: the trace of events, the number of times the stop flag has been read,
  the number of times the callback has been called, and which paths exist
  (\<open>os.path.exists\<close>). Files created by external tools are not tracked; the file
  operations of the code itself are.
\<close>

record world =
  events :: "event list"
  polls :: nat
  logs :: nat
  fs :: "string \<Rightarrow> bool"

text \<open>
  One download as \<open>urllib.request.urlretrieve\<close> performs it: whether the URL and the
  output file could be opened (only then does the output file exist), the arguments \<open>(count, block_size,
  total_size)\<close> of the successive calls of the report hook, and the error the library
  raises after them, if any.
\<close>

record retrieval =
  open_error :: "exn option"
  hook_calls :: "(nat \<times> nat \<times> int) list"
  transfer_error :: "exn option"

text \<open>
  The host: the answers of the operating system and of the Python library to the calls
  of the code. \<open>stop_requested h n\<close> is the value of the attribute
  \<open>self.stop_requested\<close> at its \<open>n\<close>-th read (another thread sets it); \<open>stop_build\<close>
  is the same for the application's \<open>self.stop_build\<close>. A call that can raise answers
  with the exception it raises. \<open>callback h n\<close> is what the \<open>n\<close>-th call of
  \<open>ISOBuilder.log\<close> raises (its callback is client code, and so are the handlers of
  the logger), \<open>gui h e\<close> what the call \<open>e\<close> of the application's logger or user
  interface raises. \<open>py_int\<close> is Python's \<open>int\<close> on a string (\<open>None\<close> where it raises
  \<open>ValueError\<close>). \<open>walk\<close> is \<open>os.walk\<close>, read as the list of the triples it yields; it
  raises where listing the top directory does (a path with a NUL character).
\<close>

record host =
  environ :: "string \<Rightarrow> string option"
  path_join :: "string list \<Rightarrow> string"
  relpath :: "string \<Rightarrow> string \<Rightarrow> string"
  dirname :: "string \<Rightarrow> string"
  script_dir :: string
  tempdir :: string
  timestamp :: string
  py_int :: "string \<Rightarrow> int option"
  stop_requested :: "nat \<Rightarrow> bool"
  stop_build :: "nat \<Rightarrow> bool"
  callback :: "nat \<Rightarrow> exn option"
  gui :: "event \<Rightarrow> exn option"
  makedirs :: "string \<Rightarrow> exn option"
  popen :: "command \<Rightarrow> exn + process"
  run :: "command \<Rightarrow> exn + (int \<times> string)"
  walk :: "string \<Rightarrow> exn + (string \<times> string list \<times> string list) list"
  copy2 :: "string \<Rightarrow> string \<Rightarrow> exn option"
  write_file :: "string \<Rightarrow> exn option"
  zip_open :: "string \<Rightarrow> exn option"
  zip_write :: "string \<Rightarrow> string \<Rightarrow> exn option"
  zip_close :: "string \<Rightarrow> exn option"
  unlink :: "string \<Rightarrow> exn option"
  rename :: "string \<Rightarrow> string \<Rightarrow> exn option"
  urlretrieve :: "string \<Rightarrow> string \<Rightarrow> retrieval"

section \<open>Strings\<close>

text \<open>A character is a code point below 256.\<close>

definition sep :: string where
  "sep = [CHR 0x5C]"

text \<open>\<open>str.strip()\<close> removes the characters for which \<open>str.isspace\<close> holds.\<close>

definition is_space :: "char \<Rightarrow> bool" where
  "is_space c = (c \<in> set [CHR 0x09, CHR 0x0A, CHR 0x0B, CHR 0x0C, CHR 0x0D,
                           CHR 0x1C, CHR 0x1D, CHR 0x1E, CHR 0x1F, CHR 0x20,
                           CHR 0x85, CHR 0xA0])"

definition strip :: "string \<Rightarrow> string" where
  "strip s = rev (dropWhile is_space (rev (dropWhile is_space s)))"

text \<open>\<open>str.lower()\<close>: the upper-case letters and their lower-case ones.\<close>

definition upper_letters :: string where
  "upper_letters = ''ABCDEFGHIJKLMNOPQRSTUVWXYZ'' @
     [CHR 0xC0, CHR 0xC1, CHR 0xC2, CHR 0xC3, CHR 0xC4, CHR 0xC5, CHR 0xC6,
      CHR 0xC7, CHR 0xC8, CHR 0xC9, CHR 0xCA, CHR 0xCB, CHR 0xCC, CHR 0xCD,
      CHR 0xCE, CHR 0xCF, CHR 0xD0, CHR 0xD1, CHR 0xD2, CHR 0xD3, CHR 0xD4,
      CHR 0xD5, CHR 0xD6, CHR 0xD8, CHR 0xD9, CHR 0xDA, CHR 0xDB, CHR 0xDC,
      CHR 0xDD, CHR 0xDE]"

definition lower_letters :: string where
  "lower_letters = ''abcdefghijklmnopqrstuvwxyz'' @
     [CHR 0xE0, CHR 0xE1, CHR 0xE2, CHR 0xE3, CHR 0xE4, CHR 0xE5, CHR 0xE6,
      CHR 0xE7, CHR 0xE8, CHR 0xE9, CHR 0xEA, CHR 0xEB, CHR 0xEC, CHR 0xED,
      CHR 0xEE, CHR 0xEF, CHR 0xF0, CHR 0xF1, CHR 0xF2, CHR 0xF3, CHR 0xF4,
      CHR 0xF5, CHR 0xF6, CHR 0xF8, CHR 0xF9, CHR 0xFA, CHR 0xFB, CHR 0xFC,
      CHR 0xFD, CHR 0xFE]"

definition lower_char :: "char \<Rightarrow> char" where
  "lower_char c =
     (case map_of (zip upper_letters lower_letters) c of
        Some d \<Rightarrow> d
      | None \<Rightarrow> c)"

definition lower :: "string \<Rightarrow> string" where
  "lower s = map lower_char s"

fun starts_with :: "string \<Rightarrow> string \<Rightarrow> bool" where
  "starts_with s [] = True"
| "starts_with [] (p # ps) = False"
| "starts_with (c # cs) (p # ps) = (c = p \<and> starts_with cs ps)"

text \<open>\<open>contains s sub\<close> is Python's \<open>sub in s\<close>.\<close>

fun contains :: "string \<Rightarrow> string \<Rightarrow> bool" where
  "contains [] sub = (sub = [])"
| "contains (c # cs) sub = (starts_with (c # cs) sub \<or> contains cs sub)"

text \<open>\<open>line.split("%")[0]\<close>: the text before the first percent sign.\<close>

definition before_percent :: "string \<Rightarrow> string" where
  "before_percent line = takeWhile (\<lambda>c. c \<noteq> CHR ''%'') line"

text \<open>\<open>s.replace(" ", "_")\<close>.\<close>

definition replace_spaces :: "string \<Rightarrow> string" where
  "replace_spaces s = map (\<lambda>c. if c = CHR '' '' then CHR ''_'' else c) s"

section \<open>Python floats\<close>

text \<open>
  A non-negative float is a pair \<open>(m, e)\<close> standing for \<open>m * 2 ^ e\<close>. Python's floats
  are IEEE 754 binary64 numbers: \<open>/\<close> on two integers and \<open>*\<close> on floats give the
  exact result rounded to 53 significant bits, ties to even. Subnormal numbers and
  overflow are not modelled (they need operands beyond \<open>2 ^ 1000\<close>).
\<close>

type_synonym float = "nat \<times> int"

fun bitlen :: "nat \<Rightarrow> nat" where
  "bitlen n = (if n = 0 then 0 else Suc (bitlen (n div 2)))"

text \<open>The integer nearest to \<open>a / b\<close>, ties to the even one.\<close>

definition round_half_even :: "nat \<Rightarrow> nat \<Rightarrow> nat" where
  "round_half_even a b =
     (let q = a div b; r = a mod b
      in if 2 * r < b then q
         else if b < 2 * r then q + 1
         else if even q then q else q + 1)"

text \<open>The float nearest to \<open>a / b\<close>, for \<open>b > 0\<close>.\<close>

definition float_of_quotient :: "nat \<Rightarrow> nat \<Rightarrow> float" where
  "float_of_quotient a b =
     (if a = 0 then (0, 0)
      else
        let k = int (bitlen a) - int (bitlen b);
            ge = (if 0 \<le> k then b * 2 ^ nat k \<le> a else b \<le> a * 2 ^ nat (- k));
            ex = (if ge then k else k - 1);
            sh = 52 - ex;
            m = (if 0 \<le> sh then round_half_even (a * 2 ^ nat sh) b
                 else round_half_even a (b * 2 ^ nat (- sh)))
        in (m, - sh))"

text \<open>The float product \<open>x * k\<close> of a float and a natural number.\<close>

definition float_times :: "float \<Rightarrow> nat \<Rightarrow> float" where
  "float_times x k =
     (case x of (m, e) \<Rightarrow>
        if 0 \<le> e then float_of_quotient (m * k * 2 ^ nat e) 1
        else float_of_quotient (m * k) (2 ^ nat (- e)))"

text \<open>\<open>int(x)\<close> on a non-negative float: truncation.\<close>

definition float_trunc :: "float \<Rightarrow> int" where
  "float_trunc x =
     (case x of (m, e) \<Rightarrow>
        if 0 \<le> e then int (m * 2 ^ nat e) else int (m div 2 ^ nat (- e)))"

text \<open>The expression \<open>int((n_done / n_total) * 100) if n_total > 0 else 0\<close>.\<close>

definition percent_of :: "nat \<Rightarrow> nat \<Rightarrow> int" where
  "percent_of n_done n_total =
     (if 0 < n_total
      then float_trunc (float_times (float_of_quotient n_done n_total) 100) else 0)"

section \<open>Steps that may raise\<close>

text \<open>
  A step takes the world and gives the new world with either a value (\<open>Inr\<close>) or the
  exception it raises (\<open>Inl\<close>).
\<close>

type_synonym 'a comp = "world \<Rightarrow> (exn + 'a) \<times> world"

definition ret :: "'a \<Rightarrow> 'a comp" where
  "ret v s = (Inr v, s)"

definition raise :: "exn \<Rightarrow> 'a comp" where
  "raise e s = (Inl e, s)"

text \<open>Sequencing: an exception of the first step skips the second.\<close>

definition and_then :: "'a comp \<Rightarrow> ('a \<Rightarrow> 'b comp) \<Rightarrow> 'b comp" where
  "and_then m k s = (case m s of (Inl e, s1) \<Rightarrow> (Inl e, s1) | (Inr v, s1) \<Rightarrow> k v s1)"

definition then_do :: "unit comp \<Rightarrow> 'b comp \<Rightarrow> 'b comp" where
  "then_do m k = and_then m (\<lambda>u. k)"

text \<open>
  \<open>try: m\<close>, \<open>except Exception as e: on_err e\<close>, and what follows the \<open>try\<close> statement
  when \<open>m\<close> does not raise: \<open>on_ok\<close>. The handler covers \<open>m\<close> only, and exceptions that
  are not subclasses of \<open>Exception\<close> pass it.
\<close>

definition handle :: "'a comp \<Rightarrow> ('a \<Rightarrow> 'b comp) \<Rightarrow> (exn \<Rightarrow> 'b comp) \<Rightarrow> 'b comp" where
  "handle m on_ok on_err s =
     (case m s of
        (Inl e, s1) \<Rightarrow> if is_exception e then on_err e s1 else (Inl e, s1)
      | (Inr v, s1) \<Rightarrow> on_ok v s1)"

text \<open>
  The same with \<open>except subprocess.SubprocessError as e\<close>, which lets every other
  exception pass.
\<close>

definition handle_subprocess ::
  "'a comp \<Rightarrow> ('a \<Rightarrow> 'b comp) \<Rightarrow> (exn \<Rightarrow> 'b comp) \<Rightarrow> 'b comp" where
  "handle_subprocess m on_ok on_err s =
     (case m s of
        (Inl e, s1) \<Rightarrow> if e = SubprocessError then on_err e s1 else (Inl e, s1)
      | (Inr v, s1) \<Rightarrow> on_ok v s1)"

text \<open>\<open>try: m\<close> with \<open>except Exception as e: handler e\<close>.\<close>

definition catch :: "'a comp \<Rightarrow> (exn \<Rightarrow> 'a comp) \<Rightarrow> 'a comp" where
  "catch m handler = handle m ret handler"

text \<open>\<open>try: m\<close> with a bare \<open>except: handler\<close>, which catches everything.\<close>

definition catch_all :: "'a comp \<Rightarrow> 'a comp \<Rightarrow> 'a comp" where
  "catch_all m handler s =
     (case m s of (Inl e, s1) \<Rightarrow> handler s1 | (Inr v, s1) \<Rightarrow> (Inr v, s1))"

text \<open>
  \<open>try: m\<close> with \<open>finally: f\<close>: \<open>f\<close> runs on every path, and an exception of \<open>f\<close>
  replaces the outcome of \<open>m\<close>.
\<close>

definition ensure :: "'a comp \<Rightarrow> unit comp \<Rightarrow> 'a comp" where
  "ensure m f s =
     (case m s of (r, s1) \<Rightarrow>
        (case f s1 of (Inl e, s2) \<Rightarrow> (Inl e, s2) | (Inr u, s2) \<Rightarrow> (r, s2)))"

section \<open>Primitive steps\<close>

definition emit :: "event \<Rightarrow> world \<Rightarrow> world" where
  "emit e s = s\<lparr>events := events s @ [e]\<rparr>"

text \<open>A call \<open>e\<close> that raises what \<open>outcome\<close> says.\<close>

definition issue :: "event \<Rightarrow> exn option \<Rightarrow> unit comp" where
  "issue e outcome s = (case outcome of None \<Rightarrow> Inr () | Some x \<Rightarrow> Inl x, emit e s)"

text \<open>
  \<open>ISOBuilder.log(message, progress)\<close>: \<open>logger.info\<close>, then the callback, called with no
  guard, so that what the callback raises leaves \<open>log\<close>.
\<close>

definition log :: "host \<Rightarrow> string \<Rightarrow> arg list \<Rightarrow> int option \<Rightarrow> unit comp" where
  "log h m as p s = issue (Log m as p) (callback h (logs s)) (s\<lparr>logs := Suc (logs s)\<rparr>)"

text \<open>One read of \<open>self.stop_requested\<close>.\<close>

definition poll :: "host \<Rightarrow> bool comp" where
  "poll h s = (Inr (stop_requested h (polls s)), s\<lparr>polls := Suc (polls s)\<rparr>)"

text \<open>
  The world as the file-system tests of the next lines see it, \<open>os.path.exists(path)\<close>,
  and the effect of a file operation on a path.
\<close>

definition snapshot :: "world comp" where
  "snapshot s = (Inr s, s)"

definition path_exists :: "string \<Rightarrow> bool comp" where
  "path_exists path s = (Inr (fs s path), s)"

definition set_fs :: "string \<Rightarrow> bool \<Rightarrow> unit comp" where
  "set_fs path b s = (Inr (), s\<lparr>fs := (fs s)(path := b)\<rparr>)"

text \<open>\<open>os.environ.get(key, default)\<close>.\<close>

definition env_get :: "host \<Rightarrow> string \<Rightarrow> string \<Rightarrow> string" where
  "env_get h key dflt = (case environ h key of Some v \<Rightarrow> v | None \<Rightarrow> dflt)"

text \<open>\<open>os.makedirs(path, exist_ok=True)\<close>.\<close>

definition do_makedirs :: "host \<Rightarrow> string \<Rightarrow> unit comp" where
  "do_makedirs h path = then_do (issue (Makedirs path) (makedirs h path)) (set_fs path True)"

text \<open>
  \<open>subprocess.run(cmd)\<close>, and \<open>subprocess.run(cmd, check=True)\<close>, where a non-zero exit
  code raises \<open>CalledProcessError\<close>. The value of the second is the captured output.
\<close>

definition run_proc :: "host \<Rightarrow> command \<Rightarrow> (int \<times> string) comp" where
  "run_proc h cmd s = (run h cmd, emit (Run cmd) s)"

definition run_checked :: "host \<Rightarrow> command \<Rightarrow> string comp" where
  "run_checked h cmd =
     and_then (run_proc h cmd)
       (\<lambda>(rc, out). if rc \<noteq> 0 then raise SubprocessError else ret out)"

text \<open>\<open>subprocess.Popen(cmd, ...)\<close> and \<open>os.walk(top)\<close>.\<close>

definition do_popen :: "host \<Rightarrow> command \<Rightarrow> process comp" where
  "do_popen h cmd s = (popen h cmd, emit (Popen cmd) s)"

definition do_walk :: "host \<Rightarrow> string \<Rightarrow> (string \<times> string list \<times> string list) list comp" where
  "do_walk h path s = (walk h path, s)"

text \<open>
  The loop \<open>for line in process.stdout\<close> shared in shape by the three subprocess
  strategies: the stop flag is read before each line; when it is set the subprocess is
  terminated and the function returns \<open>False\<close> (\<open>Some False\<close>); \<open>None\<close> means that the
  loop ran to the end of the output.
\<close>

fun read_stdout ::
  "host \<Rightarrow> process \<Rightarrow> (string \<Rightarrow> unit comp) \<Rightarrow> string list \<Rightarrow> bool option comp" where
  "read_stdout h p on_line [] =
     (case read_error p of None \<Rightarrow> ret None | Some e \<Rightarrow> raise e)"
| "read_stdout h p on_line (line # rest) =
     and_then (poll h) (\<lambda>stop.
       if stop then then_do (issue Terminate (terminate_error p)) (ret (Some False))
       else then_do (on_line line) (read_stdout h p on_line rest))"

section \<open>Extraction\<close>

text \<open>\<open>ISOBuilder._find_7zip\<close>, with its list \<open>possible_paths\<close>.\<close>

definition sevenzip_paths :: "host \<Rightarrow> string list" where
  "sevenzip_paths h =
     [path_join h [env_get h ''ProgramFiles'' (''C:'' @ sep @ ''Program Files''),
                   ''7-Zip'', ''7z.exe''],
      path_join h [env_get h ''ProgramFiles(x86)'' (''C:'' @ sep @ ''Program Files (x86)''),
                   ''7-Zip'', ''7z.exe'']]"

definition find_7zip :: "host \<Rightarrow> string option comp" where
  "find_7zip h = and_then snapshot (\<lambda>w. ret (find (fs w) (sevenzip_paths h)))"

text \<open>
  The body of the output loop of \<open>_extract_with_7zip\<close> for one line. The inner
  \<open>try\<close> has a bare \<open>except\<close>: it covers the conversion and the first \<open>log\<close>.
\<close>

definition sevenzip_line :: "host \<Rightarrow> string \<Rightarrow> unit comp" where
  "sevenzip_line h line =
     (if strip line \<noteq> [] then
        (if contains line ''%'' then
           catch_all
             (case py_int h (strip (before_percent line)) of
                Some percent \<Rightarrow> log h ''Extraction progress: {percent}%'' [I percent] (Some percent)
              | None \<Rightarrow> raise ValueError)
             (log h ''{line.strip()}'' [S (strip line)] None)
         else log h ''{line.strip()}'' [S (strip line)] None)
      else ret ())"

text \<open>The command line built by \<open>_extract_with_7zip\<close>.\<close>

definition sevenzip_cmd :: "string \<Rightarrow> string \<Rightarrow> string \<Rightarrow> string list" where
  "sevenzip_cmd seven_zip_path iso_path extract_dir =
     [seven_zip_path, ''x'', ''-o'' @ extract_dir, ''-y'', iso_path]"

text \<open>
  The part of the \<open>try\<close> block of \<open>_extract_with_7zip\<close> that follows the start of
  the subprocess: the output loop, the wait and the test of the exit code.
\<close>

definition sevenzip_monitor :: "host \<Rightarrow> process \<Rightarrow> bool comp" where
  "sevenzip_monitor h p =
     and_then (read_stdout h p (sevenzip_line h) (stdout_lines p)) (\<lambda>r.
       case r of
         Some b \<Rightarrow> ret b
       | None \<Rightarrow>
           then_do (issue Wait None)
             (if returncode p = 0
              then then_do (log h ''ISO extraction completed successfully'' [] None) (ret True)
              else then_do (log h ''7-Zip extraction failed: {error}''
                              [S (stderr_text p)] (Some 0))
                     (ret False)))"

text \<open>The \<open>try\<close> block of \<open>_extract_with_7zip\<close>.\<close>

definition extract_with_7zip_try :: "host \<Rightarrow> string \<Rightarrow> string \<Rightarrow> string \<Rightarrow> bool comp" where
  "extract_with_7zip_try h seven_zip_path iso_path extract_dir =
     then_do (log h ''Extracting ISO with 7-Zip...'' [] None)
    (then_do (do_makedirs h extract_dir)
    (and_then (do_popen h (Argv (sevenzip_cmd seven_zip_path iso_path extract_dir)))
       (sevenzip_monitor h)))"

text \<open>\<open>ISOBuilder._extract_with_7zip\<close>: the block with its \<open>except Exception\<close>.\<close>

definition extract_with_7zip :: "host \<Rightarrow> string \<Rightarrow> string \<Rightarrow> string \<Rightarrow> bool comp" where
  "extract_with_7zip h seven_zip_path iso_path extract_dir =
     catch (extract_with_7zip_try h seven_zip_path iso_path extract_dir)
       (\<lambda>e. then_do (log h ''Error extracting with 7-Zip: {e}'' [E e] (Some 0)) (ret False))"

text \<open>
  The \<open>try\<close> statement in the body of the loop \<open>for file in files\<close> of
  \<open>_extract_with_windows_mount\<close>; the value is the counter \<open>copied_files\<close> after it.
  The \<open>try\<close> covers the copy, the increment of the counter and the progress \<open>log\<close>;
  its handler logs the error. When the copy raises the counter is unchanged; when the
  \<open>log\<close> raises it has been incremented.
\<close>

definition copy_step :: "host \<Rightarrow> string \<Rightarrow> string \<Rightarrow> nat \<Rightarrow> nat \<Rightarrow> nat comp" where
  "copy_step h source_file target_file total_files copied_files =
     (let copied = copied_files + 1;
          progress = percent_of copied total_files
      in handle (issue (Copy2 source_file target_file) (copy2 h source_file target_file))
           (\<lambda>u. then_do (set_fs target_file True)
              (catch
                 (then_do
                    (if copied mod 100 = 0 \<or> copied = total_files
                     then log h ''Copying files: {copied_files}/{total_files} ({progress}%)''
                            [I (int copied), I (int total_files), I progress] (Some progress)
                     else ret ())
                    (ret copied))
                 (\<lambda>e. then_do (log h ''Error copying {source_file}: {e}'' [S source_file, E e] None)
                        (ret copied))))
           (\<lambda>e. then_do (log h ''Error copying {source_file}: {e}'' [S source_file, E e] None)
                  (ret copied_files)))"

text \<open>
  The inner loop \<open>for file in files\<close>. The value is the returned value, if the loop
  returned, and the counter \<open>copied_files\<close>.
\<close>

fun copy_files ::
  "host \<Rightarrow> string \<Rightarrow> string \<Rightarrow> nat \<Rightarrow> string list \<Rightarrow> nat \<Rightarrow> (bool option \<times> nat) comp" where
  "copy_files h root target_dir total_files [] copied_files = ret (None, copied_files)"
| "copy_files h root target_dir total_files (file # rest) copied_files =
     and_then (poll h) (\<lambda>stop.
       if stop then ret (Some False, copied_files)
       else and_then (copy_step h (path_join h [root, file]) (path_join h [target_dir, file])
                        total_files copied_files)
              (\<lambda>copied. copy_files h root target_dir total_files rest copied))"

text \<open>
  The outer loop \<open>for root, dirs, files in os.walk(source_path)\<close>: \<open>Some b\<close> is a
  \<open>return b\<close>, \<open>None\<close> the end of the walk.
\<close>

fun copy_tree ::
  "host \<Rightarrow> string \<Rightarrow> string \<Rightarrow> nat \<Rightarrow> (string \<times> string list \<times> string list) list \<Rightarrow> nat
     \<Rightarrow> bool option comp" where
  "copy_tree h source_path extract_dir total_files [] copied_files = ret None"
| "copy_tree h source_path extract_dir total_files ((root, dirs, files) # rest) copied_files =
     and_then (poll h) (\<lambda>stop.
       if stop then ret (Some False)
       else
         let rel_path = relpath h root source_path;
             target_dir = (if rel_path \<noteq> ''.'' then path_join h [extract_dir, rel_path]
                           else extract_dir)
         in then_do (do_makedirs h target_dir)
              (and_then (copy_files h root target_dir total_files files copied_files)
                 (\<lambda>(r, copied).
                    case r of
                      Some b \<Rightarrow> ret (Some b)
                    | None \<Rightarrow> copy_tree h source_path extract_dir total_files rest copied)))"

text \<open>\<open>sum([len(files) for _, _, files in os.walk(source_path)])\<close>.\<close>

definition count_files :: "(string \<times> string list \<times> string list) list \<Rightarrow> nat" where
  "count_files tree = sum_list (map (\<lambda>(root, dirs, files). length files) tree)"

text \<open>
  The part of the \<open>try\<close> block of \<open>_extract_with_windows_mount\<close> that follows the
  assignment of \<open>drive_letter\<close>. The inner \<open>except subprocess.SubprocessError\<close> covers
  the check of the drive letter and the \<open>log\<close> after it.
\<close>

definition copy_from_drive :: "host \<Rightarrow> string \<Rightarrow> string \<Rightarrow> bool comp" where
  "copy_from_drive h drive_letter extract_dir =
     handle_subprocess
       (if drive_letter = []
        then raise (PyException ''Failed to get drive letter for mounted ISO'')
        else log h ''ISO mounted at drive {drive_letter}:'' [S drive_letter] None)
       (\<lambda>u. let source_path = drive_letter @ '':'' @ sep
            in and_then (do_walk h source_path) (\<lambda>counted.
               and_then (do_walk h source_path) (\<lambda>tree.
               and_then (copy_tree h source_path extract_dir (count_files counted) tree 0)
                 (\<lambda>r. case r of
                        Some b \<Rightarrow> ret b
                      | None \<Rightarrow>
                          then_do (log h ''ISO extraction completed successfully'' [] None)
                            (ret True)))))
       (\<lambda>e. then_do (log h ''Failed to mount ISO using PowerShell: {e}'' [E e] (Some 0))
              (ret False))"

text \<open>
  The \<open>try\<close> block of \<open>_extract_with_windows_mount\<close>. Beside the outcome it gives the
  value of the variable \<open>drive_letter\<close> when the block is left (\<open>None\<close> as long as it
  has not been assigned).
\<close>

definition extract_with_windows_mount_try ::
  "host \<Rightarrow> string \<Rightarrow> string \<Rightarrow> world \<Rightarrow> ((exn + bool) \<times> string option) \<times> world" where
  "extract_with_windows_mount_try h iso_path extract_dir s =
     (case then_do (log h ''Mounting ISO using Windows built-in functionality...'' [] None)
             (do_makedirs h extract_dir) s of
        (Inl e, s1) \<Rightarrow> ((Inl e, None), s1)
      | (Inr u, s1) \<Rightarrow>
          (case run_checked h (MountDiskImage iso_path) s1 of
             (Inl e, s2) \<Rightarrow>
               if e = SubprocessError
               then (case then_do (log h ''Failed to mount ISO using PowerShell: {e}''
                                     [E e] (Some 0)) (ret False) s2 of
                       (r, s3) \<Rightarrow> ((r, None), s3))
               else ((Inl e, None), s2)
           | (Inr out, s2) \<Rightarrow>
               (case copy_from_drive h (strip out) extract_dir s2 of
                  (r, s3) \<Rightarrow> ((r, Some (strip out)), s3))))"

text \<open>The \<open>finally\<close> block of \<open>_extract_with_windows_mount\<close>.\<close>

definition unmount_finally :: "host \<Rightarrow> string \<Rightarrow> string option \<Rightarrow> unit comp" where
  "unmount_finally h iso_path drive_letter =
     (case drive_letter of
        None \<Rightarrow> ret ()
      | Some d \<Rightarrow>
          if d = [] then ret ()
          else
            catch
              (then_do (log h ''Unmounting ISO from drive {drive_letter}:'' [S d] None)
              (and_then (run_checked h (DismountDiskImage iso_path)) (\<lambda>out.
               log h ''ISO unmounted successfully'' [] None)))
              (\<lambda>e. log h ''Error unmounting ISO: {e}'' [E e] None))"

text \<open>\<open>ISOBuilder._extract_with_windows_mount\<close>: try, except Exception, finally.\<close>

definition extract_with_windows_mount :: "host \<Rightarrow> string \<Rightarrow> string \<Rightarrow> bool comp" where
  "extract_with_windows_mount h iso_path extract_dir s =
     (case extract_with_windows_mount_try h iso_path extract_dir s of
        ((r, drive_letter), s1) \<Rightarrow>
          ensure
            (catch (\<lambda>x. (r, x))
               (\<lambda>e. then_do (log h ''Error extracting with Windows mount: {e}'' [E e] (Some 0))
                      (ret False)))
            (unmount_finally h iso_path drive_letter) s1)"

text \<open>\<open>ISOBuilder.extract_iso\<close>. A path is chosen when it is a non-empty string.\<close>

definition extract_iso :: "host \<Rightarrow> string \<Rightarrow> string \<Rightarrow> bool comp" where
  "extract_iso h iso_path extract_dir =
     then_do (log h ''Extracting ISO: {iso_path} to {extract_dir}''
                [S iso_path, S extract_dir] None)
    (and_then (find_7zip h) (\<lambda>seven_zip_path.
       case seven_zip_path of
         None \<Rightarrow> extract_with_windows_mount h iso_path extract_dir
       | Some path \<Rightarrow>
           if path \<noteq> [] then extract_with_7zip h path iso_path extract_dir
           else extract_with_windows_mount h iso_path extract_dir))"

section \<open>Creation\<close>

definition dq :: string where
  "dq = [CHR 0x22]"

text \<open>The boot files looked for under \<open>source_dir/boot\<close>, in the order of the source.\<close>

definition boot_files :: "string list" where
  "boot_files = [''etfsboot.com'', ''efisys.bin'']"

text \<open>\<open>ISOBuilder._find_oscdimg\<close>, with its list \<open>possible_paths\<close>.\<close>

definition oscdimg_paths :: "host \<Rightarrow> string list" where
  "oscdimg_paths h =
     [path_join h [env_get h ''ProgramFiles'' (''C:'' @ sep @ ''Program Files''),
                   ''Windows Kits'', ''10'', ''Assessment and Deployment Kit'',
                   ''Deployment Tools'', ''amd64'', ''Oscdimg'', ''oscdimg.exe''],
      path_join h [env_get h ''ProgramFiles(x86)'' (''C:'' @ sep @ ''Program Files (x86)''),
                   ''Windows Kits'', ''10'', ''Assessment and Deployment Kit'',
                   ''Deployment Tools'', ''amd64'', ''Oscdimg'', ''oscdimg.exe'']]"

definition local_oscdimg :: "host \<Rightarrow> string" where
  "local_oscdimg h = path_join h [script_dir h, ''tools'', ''oscdimg.exe'']"

definition find_oscdimg :: "host \<Rightarrow> string option comp" where
  "find_oscdimg h =
     and_then snapshot (\<lambda>w.
       case find (fs w) (oscdimg_paths h) of
         Some path \<Rightarrow> ret (Some path)
       | None \<Rightarrow>
           if fs w (local_oscdimg h) then ret (Some (local_oscdimg h))
           else then_do
                  (log h ''oscdimg.exe not found on system. Using PowerShell fallback method.''
                     [] None)
                  (ret None))"

text \<open>
  The loop over the boot files of \<open>_create_iso_with_oscdimg\<close>: the first file that
  exists gives the arguments, and the loop is left.
\<close>

fun oscdimg_boot_args :: "host \<Rightarrow> world \<Rightarrow> string \<Rightarrow> string list \<Rightarrow> string list" where
  "oscdimg_boot_args h s source_dir [] = []"
| "oscdimg_boot_args h s source_dir (boot_file # rest) =
     (let boot_path = path_join h [source_dir, ''boot'', boot_file]
      in if fs s boot_path
         then [''-b'', boot_path] @
              (if contains (lower boot_file) ''efi'' then [''-e'', ''-u1''] else [])
         else oscdimg_boot_args h s source_dir rest)"

text \<open>The command line built by \<open>_create_iso_with_oscdimg\<close>.\<close>

definition oscdimg_cmd ::
  "host \<Rightarrow> world \<Rightarrow> string \<Rightarrow> string \<Rightarrow> string \<Rightarrow> string \<Rightarrow> string list" where
  "oscdimg_cmd h s oscdimg_path source_dir output_iso volume_label =
     [oscdimg_path, ''-m'', ''-o'', ''-u2'', ''-l'' @ volume_label]
       @ oscdimg_boot_args h s source_dir boot_files
       @ [source_dir, output_iso]"

text \<open>
  The body of the output loop of \<open>_create_iso_with_oscdimg\<close> for one line, with its
  inner \<open>try\<close> and bare \<open>except\<close>.
\<close>

definition oscdimg_line :: "host \<Rightarrow> string \<Rightarrow> unit comp" where
  "oscdimg_line h line =
     (if strip line \<noteq> [] then
        (if contains line ''%'' then
           catch_all
             (case py_int h (strip (before_percent line)) of
                Some percent \<Rightarrow> log h ''ISO creation progress: {percent}%'' [I percent] (Some percent)
              | None \<Rightarrow> raise ValueError)
             (log h ''{line.strip()}'' [S (strip line)] None)
         else log h ''{line.strip()}'' [S (strip line)] None)
      else ret ())"

text \<open>
  The part of the \<open>try\<close> block of \<open>_create_iso_with_oscdimg\<close> that follows the
  start of the subprocess: the output loop, the wait and the test of the exit code.
\<close>

definition oscdimg_monitor :: "host \<Rightarrow> process \<Rightarrow> bool comp" where
  "oscdimg_monitor h p =
     and_then (read_stdout h p (oscdimg_line h) (stdout_lines p)) (\<lambda>r.
       case r of
         Some b \<Rightarrow> ret b
       | None \<Rightarrow>
           then_do (issue Wait None)
             (if returncode p = 0
              then then_do (log h ''ISO created successfully'' [] None) (ret True)
              else then_do (log h ''oscdimg failed: {error}'' [S (stderr_text p)] (Some 0))
                     (ret False)))"

text \<open>The \<open>try\<close> block of \<open>_create_iso_with_oscdimg\<close>.\<close>

definition create_iso_with_oscdimg_try ::
  "host \<Rightarrow> string \<Rightarrow> string \<Rightarrow> string \<Rightarrow> string \<Rightarrow> bool comp" where
  "create_iso_with_oscdimg_try h oscdimg_path source_dir output_iso volume_label =
     then_do (log h ''Creating ISO with oscdimg.exe...'' [] None)
       (and_then snapshot (\<lambda>w.
          let cmd = oscdimg_cmd h w oscdimg_path source_dir output_iso volume_label
          in then_do (log h ''Running: {' '.join(cmd)}'' [Ss cmd] None)
               (and_then (do_popen h (Argv cmd)) (oscdimg_monitor h))))"

text \<open>\<open>ISOBuilder._create_iso_with_oscdimg\<close>: the block with its \<open>except Exception\<close>.\<close>

definition create_iso_with_oscdimg ::
  "host \<Rightarrow> string \<Rightarrow> string \<Rightarrow> string \<Rightarrow> string \<Rightarrow> bool comp" where
  "create_iso_with_oscdimg h oscdimg_path source_dir output_iso volume_label =
     catch (create_iso_with_oscdimg_try h oscdimg_path source_dir output_iso volume_label)
       (\<lambda>e. then_do (log h ''Error creating ISO with oscdimg: {e}'' [E e] (Some 0)) (ret False))"

text \<open>
  The inner loop \<open>for file in files\<close> of \<open>_create_basic_iso\<close>, with the counter
  \<open>processed\<close>. What \<open>zipf.write\<close> or \<open>log\<close> raises leaves the loop.
\<close>

fun archive_files ::
  "host \<Rightarrow> string \<Rightarrow> string \<Rightarrow> nat \<Rightarrow> string list \<Rightarrow> nat \<Rightarrow> (bool option \<times> nat) comp" where
  "archive_files h source_dir root file_count [] processed = ret (None, processed)"
| "archive_files h source_dir root file_count (file # rest) processed =
     and_then (poll h) (\<lambda>stop.
       if stop then ret (Some False, processed)
       else
         let full_path = path_join h [root, file];
             rel_path = relpath h full_path source_dir;
             n_done = processed + 1;
             progress = percent_of n_done file_count
         in then_do (issue (ZipWrite full_path rel_path) (zip_write h full_path rel_path))
           (then_do
              (if n_done mod 100 = 0 \<or> n_done = file_count
               then log h ''Archiving: {processed}/{file_count} files ({progress}%)''
                      [I (int n_done), I (int file_count), I progress] (Some progress)
               else ret ())
              (archive_files h source_dir root file_count rest n_done)))"

text \<open>The outer loop \<open>for root, _, files in os.walk(source_dir)\<close>.\<close>

fun archive_tree ::
  "host \<Rightarrow> string \<Rightarrow> nat \<Rightarrow> (string \<times> string list \<times> string list) list \<Rightarrow> nat
     \<Rightarrow> bool option comp" where
  "archive_tree h source_dir file_count [] processed = ret None"
| "archive_tree h source_dir file_count ((root, dirs, files) # rest) processed =
     and_then (archive_files h source_dir root file_count files processed)
       (\<lambda>(r, n). case r of
                   Some b \<Rightarrow> ret (Some b)
                 | None \<Rightarrow> archive_tree h source_dir file_count rest n)"

text \<open>\<open>os.unlink(path)\<close> and \<open>os.rename(src, dst)\<close>.\<close>

definition do_unlink :: "host \<Rightarrow> string \<Rightarrow> unit comp" where
  "do_unlink h path = then_do (issue (Unlink path) (unlink h path)) (set_fs path False)"

definition do_rename :: "host \<Rightarrow> string \<Rightarrow> string \<Rightarrow> unit comp" where
  "do_rename h src dst =
     then_do (issue (Rename src dst) (rename h src dst))
       (then_do (set_fs src False) (set_fs dst True))"

text \<open>
  The \<open>with zipfile.ZipFile(...) as zipf\<close> statement of \<open>_create_basic_iso\<close>: the
  archive is closed on every path out of the body. \<open>Some b\<close> is a \<open>return b\<close> from the
  body.
\<close>

definition write_archive :: "host \<Rightarrow> string \<Rightarrow> string \<Rightarrow> bool option comp" where
  "write_archive h source_dir zip_path =
     then_do (issue (ZipOpen zip_path) (zip_open h zip_path))
    (then_do (set_fs zip_path True)
       (ensure
          (and_then (do_walk h source_dir) (\<lambda>counted.
           and_then (do_walk h source_dir) (\<lambda>tree.
           archive_tree h source_dir (count_files counted) tree 0)))
          (issue ZipClose (zip_close h zip_path))))"

text \<open>The \<open>try\<close> block of \<open>_create_basic_iso\<close>.\<close>

definition create_basic_iso_try :: "host \<Rightarrow> string \<Rightarrow> string \<Rightarrow> string \<Rightarrow> bool comp" where
  "create_basic_iso_try h source_dir output_iso volume_label =
     then_do (log h ''Creating archive of files...'' [] None)
       (and_then (write_archive h source_dir (output_iso @ ''.zip'')) (\<lambda>r.
          case r of
            Some b \<Rightarrow> ret b
          | None \<Rightarrow>
              and_then (path_exists output_iso) (\<lambda>present.
              then_do (if present then do_unlink h output_iso else ret ())
             (then_do (do_rename h (output_iso @ ''.zip'') output_iso)
             (then_do (log h ''Basic ISO archive created (note: this is not a proper bootable ISO)''
                         [] None)
                (ret True))))))"

text \<open>\<open>ISOBuilder._create_basic_iso\<close>: the first \<open>log\<close> stands before the \<open>try\<close>.\<close>

definition create_basic_iso :: "host \<Rightarrow> string \<Rightarrow> string \<Rightarrow> string \<Rightarrow> bool comp" where
  "create_basic_iso h source_dir output_iso volume_label =
     then_do (log h ''Attempting basic ISO creation (note: may not be bootable)...'' [] None)
       (catch (create_basic_iso_try h source_dir output_iso volume_label)
          (\<lambda>e. then_do (log h ''Error creating basic ISO archive: {e}'' [E e] (Some 0))
                 (ret False)))"

text \<open>The boot arguments of \<open>_create_iso_with_powershell\<close>: a string.\<close>

fun powershell_boot_args :: "host \<Rightarrow> world \<Rightarrow> string \<Rightarrow> string list \<Rightarrow> string" where
  "powershell_boot_args h s source_dir [] = []"
| "powershell_boot_args h s source_dir (boot_file # rest) =
     (let boot_path = path_join h [source_dir, ''boot'', boot_file]
      in if fs s boot_path then ''-Bootable -BootFile '' @ dq @ boot_path @ dq
         else powershell_boot_args h s source_dir rest)"

text \<open>The body of the output loop of \<open>_create_iso_with_powershell\<close> for one line.\<close>

definition powershell_line :: "host \<Rightarrow> string \<Rightarrow> unit comp" where
  "powershell_line h line =
     (if strip line \<noteq> [] then
        (if contains line ''%'' \<and> contains (lower line) ''complete'' then
           catch_all
             (case py_int h (strip (before_percent line)) of
                Some percent \<Rightarrow> log h ''ISO creation progress: {percent}%'' [I percent] (Some percent)
              | None \<Rightarrow> raise ValueError)
             (log h ''{line.strip()}'' [S (strip line)] None)
         else log h ''{line.strip()}'' [S (strip line)] None)
      else ret ())"

text \<open>\<open>open(path, "w")\<close> followed by \<open>f.write\<close>.\<close>

definition do_write :: "host \<Rightarrow> string \<Rightarrow> unit comp" where
  "do_write h path = then_do (issue (WriteFile path) (write_file h path)) (set_fs path True)"

text \<open>
  The first part of the \<open>try\<close> block of \<open>_create_iso_with_powershell\<close>: the probe for
  \<open>New-IsoFile\<close> and, when the probe does not find it, the helper script. The value is
  the variable \<open>script_path\<close>, which is assigned only in that branch (\<open>None\<close>:
  unassigned).
\<close>

definition ensure_new_isofile :: "host \<Rightarrow> string option comp" where
  "ensure_new_isofile h =
     and_then (run_proc h GetCommandNewIsoFile) (\<lambda>(rc, out).
       if \<not> contains out ''New-IsoFile'' then
         then_do (log h ''New-IsoFile command not available, importing IMAPI module...'' [] None)
           (let script_path = path_join h [tempdir h, ''New-IsoFile.ps1'']
            in then_do (do_write h script_path)
                 (and_then (run_checked h (DotSource script_path)) (\<lambda>out.
                    ret (Some script_path))))
       else ret None)"

text \<open>
  The part of the \<open>try\<close> block of \<open>_create_iso_with_powershell\<close> that follows the
  start of the subprocess. On a non-zero exit code the block returns what
  \<open>_create_basic_iso\<close> returns.
\<close>

definition powershell_monitor ::
  "host \<Rightarrow> string \<Rightarrow> string \<Rightarrow> string \<Rightarrow> process \<Rightarrow> bool comp" where
  "powershell_monitor h source_dir output_iso volume_label p =
     and_then (read_stdout h p (powershell_line h) (stdout_lines p)) (\<lambda>r.
       case r of
         Some b \<Rightarrow> ret b
       | None \<Rightarrow>
           then_do (issue Wait None)
             (if returncode p = 0
              then then_do (log h ''ISO created successfully with PowerShell'' [] None)
                     (ret True)
              else then_do (log h ''PowerShell ISO creation failed: {error}''
                              [S (stderr_text p)] (Some 0))
                     (create_basic_iso h source_dir output_iso volume_label)))"

text \<open>
  The \<open>try\<close> block of \<open>_create_iso_with_powershell\<close>. Building the command string reads
  \<open>script_path\<close>; where the variable has not been assigned this raises (a \<open>NameError\<close>).
\<close>

definition create_iso_with_powershell_try ::
  "host \<Rightarrow> string \<Rightarrow> string \<Rightarrow> string \<Rightarrow> bool comp" where
  "create_iso_with_powershell_try h source_dir output_iso volume_label =
     then_do (log h ''Creating ISO with PowerShell...'' [] None)
       (and_then (ensure_new_isofile h) (\<lambda>assigned.
        and_then snapshot (\<lambda>w.
          let boot_args = powershell_boot_args h w source_dir boot_files
          in case assigned of
               None \<Rightarrow> raise NameError
             | Some script_path \<Rightarrow>
                 then_do (log h ''Running PowerShell ISO creation...'' [] None)
                   (and_then (do_popen h (NewIsoFile script_path source_dir output_iso
                                            volume_label boot_args))
                      (powershell_monitor h source_dir output_iso volume_label)))))"

text \<open>
  \<open>ISOBuilder._create_iso_with_powershell\<close>: the handler of the block calls
  \<open>_create_basic_iso\<close> as the last resort.
\<close>

definition create_iso_with_powershell :: "host \<Rightarrow> string \<Rightarrow> string \<Rightarrow> string \<Rightarrow> bool comp" where
  "create_iso_with_powershell h source_dir output_iso volume_label =
     catch (create_iso_with_powershell_try h source_dir output_iso volume_label)
       (\<lambda>e. then_do (log h ''Error creating ISO with PowerShell: {e}'' [E e] (Some 0))
              (create_basic_iso h source_dir output_iso volume_label))"

text \<open>
  \<open>ISOBuilder.create_iso\<close>. The masterer is used when \<open>_find_oscdimg\<close> gives a non-empty
  string; what it returns is returned.
\<close>

definition create_iso :: "host \<Rightarrow> string \<Rightarrow> string \<Rightarrow> string \<Rightarrow> bool comp" where
  "create_iso h source_dir output_iso volume_label =
     catch
       (then_do (log h ''Creating ISO from {source_dir} to {output_iso}''
                   [S source_dir, S output_iso] None)
          (and_then (find_oscdimg h) (\<lambda>oscdimg_path.
             case oscdimg_path of
               None \<Rightarrow> create_iso_with_powershell h source_dir output_iso volume_label
             | Some path \<Rightarrow>
                 if path = []
                 then create_iso_with_powershell h source_dir output_iso volume_label
                 else create_iso_with_oscdimg h path source_dir output_iso volume_label)))
       (\<lambda>e. then_do (log h ''Error creating ISO: {e}'' [E e] (Some 0)) (ret False))"

section \<open>Download\<close>

text \<open>
  The hook \<open>report_progress(count, block_size, total_size)\<close> of \<open>download_file\<close>;
  \<open>progress_callback\<close> tells whether the caller gave one. The percentage is
  \<open>int(min(count * block_size * 100 / total_size, 100))\<close>.
\<close>

definition report_progress :: "host \<Rightarrow> bool \<Rightarrow> nat \<times> nat \<times> int \<Rightarrow> unit comp" where
  "report_progress h progress_callback call =
     (case call of (count, block_size, total_size) \<Rightarrow>
        and_then (poll h) (\<lambda>stop.
          if stop then raise (PyException ''Download canceled by user'')
          else if 0 < total_size then
            let percent = min (float_trunc (float_of_quotient (count * block_size * 100)
                                               (nat total_size))) 100
            in then_do
                 (log h ''Downloaded {count * block_size / 1024 / 1024:.1f} MB of {total_size / 1024 / 1024:.1f} MB ({percent:.1f}%)''
                    [I (int count), I (int block_size), I total_size] (Some percent))
                 (if progress_callback
                  then issue (ProgressCallback percent) (gui h (ProgressCallback percent))
                  else ret ())
          else ret ()))"

fun run_hooks :: "host \<Rightarrow> bool \<Rightarrow> (nat \<times> nat \<times> int) list \<Rightarrow> unit comp" where
  "run_hooks h progress_callback [] = ret ()"
| "run_hooks h progress_callback (call # rest) =
     then_do (report_progress h progress_callback call) (run_hooks h progress_callback rest)"

text \<open>\<open>urllib.request.urlretrieve(url, destination, report_progress)\<close>.\<close>

definition do_urlretrieve :: "host \<Rightarrow> string \<Rightarrow> string \<Rightarrow> bool \<Rightarrow> unit comp" where
  "do_urlretrieve h url destination progress_callback =
     (let r = urlretrieve h url destination
      in then_do (issue (UrlRetrieve url destination) (open_error r))
        (then_do (set_fs destination True)
        (then_do (run_hooks h progress_callback (hook_calls r))
           (case transfer_error r of None \<Rightarrow> ret () | Some e \<Rightarrow> raise e))))"

text \<open>The \<open>try\<close> block of \<open>download_file\<close>.\<close>

definition download_file_try :: "host \<Rightarrow> string \<Rightarrow> string \<Rightarrow> bool \<Rightarrow> bool comp" where
  "download_file_try h url destination progress_callback =
     then_do (do_makedirs h (dirname h destination))
    (then_do (do_urlretrieve h url destination progress_callback)
    (then_do (log h ''Download completed to {destination}'' [S destination] None)
       (ret True)))"

text \<open>
  \<open>ISOBuilder.download_file\<close>. The first \<open>log\<close> stands before the \<open>try\<close>. In the
  handler an error of \<open>os.unlink\<close> is swallowed by the bare \<open>except: pass\<close>.
\<close>

definition download_file :: "host \<Rightarrow> string \<Rightarrow> string \<Rightarrow> bool \<Rightarrow> bool comp" where
  "download_file h url destination progress_callback =
     then_do (log h ''Downloading {url} to {destination}'' [S url, S destination] None)
       (catch (download_file_try h url destination progress_callback)
          (\<lambda>e. then_do (log h ''Error downloading file: {e}'' [E e] (Some 0))
                 (and_then (path_exists destination) (\<lambda>present.
                  then_do (if present then catch_all (do_unlink h destination) (ret ())
                           else ret ())
                    (ret False)))))"

section \<open>The application's build thread\<close>

text \<open>The inputs of one build: the variables of \<open>RTABuilderApp\<close> the thread reads.\<close>

record app =
  iso_path :: string
  output_folder :: string
  tool_vars :: "(string \<times> bool) list"
  hostname_var :: string
  enable_branding :: bool
  vhd_format :: bool
  ami_format :: bool

text \<open>
  The calls of the application to its logger and its user interface: \<open>RTABuilderApp.log\<close>
  at level INFO, \<open>update_progress\<close>, \<open>logger.error\<close>, the scheduling of a message box and
  of a button change with \<open>root.after\<close>. Each raises what the host says.
\<close>

definition gui_call :: "host \<Rightarrow> event \<Rightarrow> unit comp" where
  "gui_call h e = issue e (gui h e)"

definition app_log :: "host \<Rightarrow> string \<Rightarrow> arg list \<Rightarrow> unit comp" where
  "app_log h m as = gui_call h (AppLog m as)"

definition update_progress :: "host \<Rightarrow> int \<Rightarrow> unit comp" where
  "update_progress h v = gui_call h (UpdateProgress v)"

text \<open>One read of \<open>self.stop_build\<close>.\<close>

definition poll_build :: "host \<Rightarrow> bool comp" where
  "poll_build h s = (Inr (stop_build h (polls s)), s\<lparr>polls := Suc (polls s)\<rparr>)"

text \<open>The dictionary \<open>steps\<close> of stage weights, and a lookup of one of its keys.\<close>

definition steps :: "(string \<times> int) list" where
  "steps = [(''extract_iso'', 20), (''copy_tools'', 10), (''customize'', 10),
            (''rebuild_iso'', 50), (''cleanup'', 10)]"

definition weight :: "string \<Rightarrow> int" where
  "weight k = (case map_of steps k of Some w \<Rightarrow> w | None \<Rightarrow> 0)"

text \<open>
  The loop \<open>for i in range(5)\<close> of \<open>RTABuilderApp._extract_iso\<close>: \<open>Some b\<close> is a
  \<open>return b\<close>.
\<close>

fun extract_steps :: "host \<Rightarrow> nat list \<Rightarrow> bool option comp" where
  "extract_steps h [] = ret None"
| "extract_steps h (i # rest) =
     and_then (poll_build h) (\<lambda>stop.
       if stop then ret (Some False)
       else then_do (app_log h ''Extracting files (step {i+1}/5)...'' [I (int i + 1)])
              (extract_steps h rest))"

text \<open>\<open>RTABuilderApp._extract_iso\<close> (a placeholder in the source).\<close>

definition app_extract_iso :: "host \<Rightarrow> string \<Rightarrow> string \<Rightarrow> bool comp" where
  "app_extract_iso h iso_file extract_dir =
     then_do (app_log h ''Mounting ISO image...'' [])
       (and_then (extract_steps h [0..<5]) (\<lambda>r.
          case r of
            Some b \<Rightarrow> ret b
          | None \<Rightarrow>
              then_do (do_makedirs h (path_join h [extract_dir, ''live'']))
             (then_do (do_makedirs h (path_join h [extract_dir, ''boot'']))
             (then_do (do_makedirs h (path_join h [extract_dir, ''EFI'']))
                (ret True)))))"

text \<open>The loop \<open>for i in range(total_steps)\<close> of \<open>RTABuilderApp._rebuild_iso\<close>.\<close>

fun rebuild_steps :: "host \<Rightarrow> int \<Rightarrow> nat list \<Rightarrow> bool option comp" where
  "rebuild_steps h total_steps [] = ret None"
| "rebuild_steps h total_steps (i # rest) =
     and_then (poll_build h) (\<lambda>stop.
       if stop then ret (Some False)
       else then_do (app_log h ''Rebuilding ISO (step {i+1}/{total_steps})...''
                       [I (int i + 1), I total_steps])
             (then_do (update_progress h (50 + int i * 5))
                (rebuild_steps h total_steps rest)))"

text \<open>\<open>RTABuilderApp._rebuild_iso\<close> (a placeholder in the source).\<close>

definition app_rebuild_iso :: "host \<Rightarrow> string \<Rightarrow> string \<Rightarrow> bool comp" where
  "app_rebuild_iso h source_dir output_iso =
     (let total_steps = 10
      in then_do (app_log h ''Preparing to rebuild ISO...'' [])
           (and_then (rebuild_steps h (int total_steps) [0..<total_steps]) (\<lambda>r.
              case r of
                Some b \<Rightarrow> ret b
              | None \<Rightarrow> then_do (do_write h output_iso) (ret True))))"

text \<open>The loop \<open>for tool in selected_tools\<close> of the build thread.\<close>

fun copy_tools :: "host \<Rightarrow> string \<Rightarrow> string list \<Rightarrow> unit comp" where
  "copy_tools h tools_dir [] = ret ()"
| "copy_tools h tools_dir (tool # rest) =
     then_do (app_log h ''Adding tool: {tool}'' [S tool])
       (let tool_dir = path_join h [tools_dir, replace_spaces (lower tool)]
        in then_do (do_makedirs h tool_dir)
          (then_do (do_write h (path_join h [tool_dir, ''info.txt'']))
             (copy_tools h tools_dir rest)))"

text \<open>
  The check \<open>if self.stop_build: raise Exception("Build process stopped by user")\<close>
  followed by \<open>completed_weight += steps[key]; self.update_progress(completed_weight)\<close>.
\<close>

definition checkpoint :: "host \<Rightarrow> string \<Rightarrow> int \<Rightarrow> int comp" where
  "checkpoint h key completed_weight =
     and_then (poll_build h) (\<lambda>stop.
       if stop then raise (PyException ''Build process stopped by user'')
       else then_do (update_progress h (completed_weight + weight key))
              (ret (completed_weight + weight key)))"

text \<open>The names the thread computes from the time and the output folder.\<close>

definition workspace :: "host \<Rightarrow> app \<Rightarrow> string" where
  "workspace h a = path_join h [output_folder a, ''build_'' @ timestamp h]"

definition extract_dir_of :: "host \<Rightarrow> app \<Rightarrow> string" where
  "extract_dir_of h a = path_join h [workspace h a, ''iso_contents'']"

definition output_iso_of :: "host \<Rightarrow> app \<Rightarrow> string" where
  "output_iso_of h a =
     path_join h [output_folder a, (''kali-rta-custom_'' @ timestamp h) @ ''.iso'']"

text \<open>
  Stage 1 of the build thread, from its start to the end of the extraction; the value is
  \<open>completed_weight\<close>.
\<close>

definition stage_extract :: "host \<Rightarrow> app \<Rightarrow> int comp" where
  "stage_extract h a =
     then_do (app_log h ''Starting build process...'' [])
    (then_do (update_progress h 0)
    (then_do (do_makedirs h (workspace h a))
    (then_do (app_log h ''Created workspace at {workspace}'' [S (workspace h a)])
    (then_do (do_makedirs h (extract_dir_of h a))
    (then_do (app_log h ''Extracting ISO contents...'' [])
    (and_then (app_extract_iso h (iso_path a) (extract_dir_of h a)) (\<lambda>ok.
       if \<not> ok then raise (PyException ''Failed to extract ISO'')
       else checkpoint h ''extract_iso'' 0)))))))"

text \<open>Stage 2: the selected tools.\<close>

definition stage_tools :: "host \<Rightarrow> app \<Rightarrow> int \<Rightarrow> int comp" where
  "stage_tools h a completed_weight =
     (let tools_dir = path_join h [extract_dir_of h a, ''tools'']
      in then_do (do_makedirs h tools_dir)
        (then_do (app_log h ''Copying selected tools...'' [])
        (then_do (copy_tools h tools_dir (map fst (filter snd (tool_vars a))))
           (checkpoint h ''copy_tools'' completed_weight))))"

text \<open>Stage 3: host name and branding.\<close>

definition stage_customize :: "host \<Rightarrow> app \<Rightarrow> int \<Rightarrow> int comp" where
  "stage_customize h a completed_weight =
     then_do (app_log h ''Customizing ISO settings...'' [])
       (let hostname_file = path_join h [extract_dir_of h a, ''etc'', ''hostname'']
        in then_do (do_makedirs h (dirname h hostname_file))
          (then_do (do_write h hostname_file)
          (then_do (if enable_branding a then app_log h ''Adding Richey May branding...'' []
                    else ret ())
             (checkpoint h ''customize'' completed_weight))))"

text \<open>Stages 4 to 6: the rebuild, the optional formats, the cleanup, the final report.\<close>

definition stage_rebuild :: "host \<Rightarrow> app \<Rightarrow> int \<Rightarrow> int comp" where
  "stage_rebuild h a completed_weight =
     then_do (app_log h ''Rebuilding ISO as {output_iso}...'' [S (output_iso_of h a)])
       (and_then (app_rebuild_iso h (extract_dir_of h a) (output_iso_of h a)) (\<lambda>ok.
          if \<not> ok then raise (PyException ''Failed to rebuild ISO'')
          else
            then_do (update_progress h (completed_weight + weight ''rebuild_iso''))
           (then_do (if vhd_format a
                     then app_log h ''Creating VHD format (not implemented in this version)'' []
                     else ret ())
           (then_do (if ami_format a
                     then app_log h ''Creating AMI format (not implemented in this version)'' []
                     else ret ())
           (then_do (app_log h ''Cleaning up temporary files...'' [])
           (then_do (update_progress h 100)
           (then_do (app_log h ''Build completed successfully! Output saved to {output_iso}''
                       [S (output_iso_of h a)])
           (then_do (gui_call h (ShowInfo ''Build Complete''
                                   ''Custom Kali ISO created successfully at:{output_iso}''
                                   [S (output_iso_of h a)]))
              (ret (completed_weight + weight ''rebuild_iso'' + weight ''cleanup''))))))))))"

text \<open>The \<open>try\<close> block of \<open>RTABuilderApp._build_thread\<close>.\<close>

definition build_thread_try :: "host \<Rightarrow> app \<Rightarrow> int comp" where
  "build_thread_try h a =
     and_then (stage_extract h a) (\<lambda>w1.
     and_then (stage_tools h a w1) (\<lambda>w2.
     and_then (stage_customize h a w2) (\<lambda>w3.
     stage_rebuild h a w3)))"

text \<open>
  \<open>RTABuilderApp._build_thread\<close>: every exception of the block, the one raised for a
  stop included, is reported by \<open>logger.error\<close> and an error box; the \<open>finally\<close> block
  resets the two buttons.
\<close>

definition build_thread :: "host \<Rightarrow> app \<Rightarrow> unit comp" where
  "build_thread h a =
     ensure
       (catch (and_then (build_thread_try h a) (\<lambda>w. ret ()))
          (\<lambda>e. then_do (gui_call h (LoggerError ''Build failed: {e}'' [E e]))
                 (gui_call h (ShowError ''Build Failed'' ''Failed to build custom ISO: {e}''
                                [E e]))))
       (then_do (gui_call h (ConfigButton ''build_button'' ''NORMAL''))
          (gui_call h (ConfigButton ''stop_button'' ''DISABLED'')))"

section \<open>Observations on a run\<close>

text \<open>The values passed to \<open>update_progress\<close>, in order.\<close>

fun progress_values :: "event list \<Rightarrow> int list" where
  "progress_values [] = []"
| "progress_values (UpdateProgress v # es) = v # progress_values es"
| "progress_values (e # es) = progress_values es"

text \<open>The unmount commands issued so far.\<close>

definition is_unmount :: "event \<Rightarrow> bool" where
  "is_unmount e = (case e of Run (DismountDiskImage p) \<Rightarrow> True | _ \<Rightarrow> False)"

definition unmounts :: "world \<Rightarrow> nat" where
  "unmounts s = length (filter is_unmount (events s))"

text \<open>The file copies issued so far.\<close>

definition is_copy :: "event \<Rightarrow> bool" where
  "is_copy e = (case e of Copy2 src dst \<Rightarrow> True | _ \<Rightarrow> False)"

definition copies :: "world \<Rightarrow> nat" where
  "copies s = length (filter is_copy (events s))"

text \<open>
  The calls that start an external tool or open the raw archive, in order: a creation
  tier shows in them.
\<close>

definition is_tool_event :: "event \<Rightarrow> bool" where
  "is_tool_event e =
     (case e of Popen c \<Rightarrow> True | Run c \<Rightarrow> True | ZipOpen p \<Rightarrow> True | _ \<Rightarrow> False)"

definition tool_events :: "world \<Rightarrow> event list" where
  "tool_events s = filter is_tool_event (events s)"

text \<open>The raw archive is opened.\<close>

definition is_zip_open :: "event \<Rightarrow> bool" where
  "is_zip_open e = (case e of ZipOpen p \<Rightarrow> True | _ \<Rightarrow> False)"

text \<open>The two messages with which \<open>_create_iso_with_powershell\<close> reports its failure.\<close>

definition is_scripted_failure :: "event \<Rightarrow> bool" where
  "is_scripted_failure e =
     (case e of
        Log m as p \<Rightarrow> m = ''PowerShell ISO creation failed: {error}'' \<or>
                     m = ''Error creating ISO with PowerShell: {e}''
      | _ \<Rightarrow> False)"

text \<open>What the build thread reports to the user and to the error log.\<close>

definition is_report :: "event \<Rightarrow> bool" where
  "is_report e =
     (case e of
        LoggerError m as \<Rightarrow> True
      | ShowInfo title m as \<Rightarrow> True
      | ShowError title m as \<Rightarrow> True
      | _ \<Rightarrow> False)"

definition reports :: "world \<Rightarrow> event list" where
  "reports s = filter is_report (events s)"

text \<open>The reads of the stop flag that a complete walk over a tree makes.\<close>

definition tree_polls :: "(string \<times> string list \<times> string list) list \<Rightarrow> nat" where
  "tree_polls tree = sum_list (map (\<lambda>(root, dirs, files). 1 + length files) tree)"

text \<open>Neither the callback nor the logging of \<open>ISOBuilder.log\<close> ever raises.\<close>

definition cb_quiet :: "host \<Rightarrow> bool" where
  "cb_quiet h = (\<forall>n. callback h n = None)"

text \<open>
  An outcome in which no exception of class \<open>Exception\<close> leaves the function, and one
  that moreover is not the value \<open>True\<close>.
\<close>

definition contained :: "exn + 'a \<Rightarrow> bool" where
  "contained r = (case r of Inl e \<Rightarrow> \<not> is_exception e | Inr v \<Rightarrow> True)"

definition fails :: "exn + bool \<Rightarrow> bool" where
  "fails r = (case r of Inl e \<Rightarrow> \<not> is_exception e | Inr b \<Rightarrow> \<not> b)"

text \<open>A step that does not read the stop flag.\<close>

definition steady :: "'a comp \<Rightarrow> bool" where
  "steady m = (\<forall>s. polls (snd (m s)) = polls s)"

text \<open>None of the reads of the application's flag numbered from \<open>a\<close> up to \<open>b\<close> found it set.\<close>

definition stop_clear :: "host \<Rightarrow> nat \<Rightarrow> nat \<Rightarrow> bool" where
  "stop_clear h a b = list_all (\<lambda>n. \<not> stop_build h n) [a..<b]"

text \<open>
  The exceptions with which the \<open>try\<close> block of the build thread ends when it has found
  the flag set: at one of its own checks, or inside the extraction or the rebuild.
\<close>

definition stop_outcomes :: "(exn + 'a) set" where
  "stop_outcomes =
     {Inl (PyException ''Build process stopped by user''),
      Inl (PyException ''Failed to extract ISO''),
      Inl (PyException ''Failed to rebuild ISO'')}"

text \<open>
  A step whose outcome is in \<open>B\<close> whenever one of its reads of the application's flag
  found it set.
\<close>

definition tracked :: "host \<Rightarrow> (exn + 'a) set \<Rightarrow> 'a comp \<Rightarrow> bool" where
  "tracked h B m =
     (\<forall>s. polls s \<le> polls (snd (m s)) \<and>
          (stop_clear h (polls s) (polls (snd (m s))) \<or> fst (m s) \<in> B))"

text \<open>A step adds events to the trace, and adds only events for which \<open>P\<close> holds.\<close>

definition emits :: "(event \<Rightarrow> bool) \<Rightarrow> 'a comp \<Rightarrow> bool" where
  "emits P m = (\<forall>s. \<exists>es. events (snd (m s)) = events s @ es \<and> list_all P es)"

text \<open>
  A step adds events of which every opening of the raw archive comes after a report of
  the scripted tier's failure.
\<close>

definition gated :: "'a comp \<Rightarrow> bool" where
  "gated m =
     (\<forall>s. \<exists>pre post. events (snd (m s)) = events s @ pre @ post \<and>
                 list_all (\<lambda>e. \<not> is_zip_open e) pre \<and>
                 (post = [] \<or> is_scripted_failure (hd post)))"

section \<open>Concrete hosts\<close>

text \<open>
  A host on which every call succeeds, nothing is installed and nobody asks to stop; the
  examples below change single answers of it.
\<close>

definition join_backslash :: "string list \<Rightarrow> string" where
  "join_backslash ps =
     foldr (\<lambda>p acc. if acc = [] then p
                     else if p \<noteq> [] \<and> last p = CHR 0x5C then p @ acc
                     else p @ sep @ acc) ps []"

definition idle_process :: process where
  "idle_process =
     \<lparr>stdout_lines = [], read_error = None, terminate_error = None, returncode = 0,
      stderr_text = []\<rparr>"

definition quiet_host :: host where
  "quiet_host =
     \<lparr>environ = (\<lambda>k. None),
      path_join = join_backslash,
      relpath = (\<lambda>p start. if p = start then ''.'' else drop (length start) p),
      dirname = (\<lambda>p. ''downloads''),
      script_dir = ''app'',
      tempdir = ''tmp'',
      timestamp = ''20240101_000000'',
      py_int = (\<lambda>t. None),
      stop_requested = (\<lambda>n. False),
      stop_build = (\<lambda>n. False),
      callback = (\<lambda>n. None),
      gui = (\<lambda>e. None),
      makedirs = (\<lambda>p. None),
      popen = (\<lambda>c. Inr idle_process),
      run = (\<lambda>c. Inr (0, [])),
      walk = (\<lambda>p. Inr []),
      copy2 = (\<lambda>src dst. None),
      write_file = (\<lambda>p. None),
      zip_open = (\<lambda>p. None),
      zip_write = (\<lambda>src dst. None),
      zip_close = (\<lambda>p. None),
      unlink = (\<lambda>p. None),
      rename = (\<lambda>src dst. None),
      urlretrieve = (\<lambda>url dst. \<lparr>open_error = None, hook_calls = [], transfer_error = None\<rparr>)\<rparr>"

definition empty_world :: world where
  "empty_world = \<lparr>events = [], polls = 0, logs = 0, fs = (\<lambda>p. False)\<rparr>"

definition demo_app :: app where
  "demo_app =
     \<lparr>iso_path = ''kali.iso'', output_folder = ''out'', tool_vars = [(''Nmap'', True)],
      hostname_var = ''rta'', enable_branding = False, vhd_format = False,
      ami_format = False\<rparr>"

text \<open>A host on which the mount command answers with the drive letter \<open>E\<close>.\<close>

definition mounted_host :: host where
  "mounted_host = quiet_host\<lparr>run := (\<lambda>c. Inr (0, ''E''))\<rparr>"

text \<open>
  The callback fails at its fourth call, which on an empty mounted volume is the one of
  the message about unmounting.
\<close>

definition unmount_log_host :: host where
  "unmount_log_host =
     mounted_host\<lparr>callback := (\<lambda>n. if n = 3 then Some (PyException ''window closed'') else None)\<rparr>"

text \<open>The masterer is installed beside the script, and its subprocess is killed.\<close>

definition oscdimg_host :: host where
  "oscdimg_host =
     quiet_host\<lparr>popen := (\<lambda>c. Inr (idle_process\<lparr>returncode := 137, stderr_text := ''killed''\<rparr>))\<rparr>"

definition oscdimg_world :: world where
  "oscdimg_world =
     empty_world\<lparr>fs := (\<lambda>p. p = join_backslash [''app'', ''tools'', ''oscdimg.exe''])\<rparr>"

text \<open>
  The mounted volume holds one file, which cannot be copied, and the unmount command
  exits with code 1.
\<close>

definition skipping_host :: host where
  "skipping_host =
     quiet_host\<lparr>run := (\<lambda>c. case c of
                               MountDiskImage p \<Rightarrow> Inr (0, ''E'')
                             | DismountDiskImage p \<Rightarrow> Inr (1, [])
                             | _ \<Rightarrow> Inr (0, [])),
                walk := (\<lambda>p. Inr [(p, [], [''a.txt''])]),
                copy2 := (\<lambda>src dst. Some OSError)\<rparr>"

text \<open>
  The directory cannot be created, and the callback fails at its second call, which is
  the one of the error message.
\<close>

definition failing_log_host :: host where
  "failing_log_host =
     quiet_host\<lparr>makedirs := (\<lambda>p. Some OSError),
                callback := (\<lambda>n. if n = 1 then Some (PyException ''window closed'') else None)\<rparr>"

text \<open>
  The archiver prints one line; the flag is set after the read that precedes this line.
\<close>

definition late_stop_host :: host where
  "late_stop_host =
     quiet_host\<lparr>popen := (\<lambda>c. Inr (idle_process\<lparr>stdout_lines := [''Everything is Ok'']\<rparr>)),
                stop_requested := (\<lambda>n. 0 < n)\<rparr>"

text \<open>
  The archiver prints three lines, and the mounted volume holds two directories of two
  files; the flag is found set when it is read the second time.
\<close>

definition stop_host :: host where
  "stop_host =
     mounted_host\<lparr>popen := (\<lambda>c. Inr (idle_process\<lparr>stdout_lines := [''a'', ''b'', ''c'']\<rparr>)),
                  walk := (\<lambda>p. Inr [(p, [''d''], [''a'', ''b'']), (p @ ''d'', [], [''c'', ''e''])]),
                  stop_requested := (\<lambda>n. 1 \<le> n)\<rparr>"

text \<open>The transfer breaks after the first block, and the partial file cannot be deleted.\<close>

definition broken_download_host :: host where
  "broken_download_host =
     quiet_host\<lparr>urlretrieve := (\<lambda>url dst. \<lparr>open_error = None, hook_calls = [(0, 8192, 100000)],
                                          transfer_error = Some OSError\<rparr>),
                unlink := (\<lambda>p. Some OSError)\<rparr>"

text \<open>The stop flag is set when the first block of the transfer is reported.\<close>

definition cancelled_download_host :: host where
  "cancelled_download_host =
     quiet_host\<lparr>urlretrieve := (\<lambda>url dst. \<lparr>open_error = None, hook_calls = [(0, 8192, 100000)],
                                          transfer_error = None\<rparr>),
                stop_requested := (\<lambda>n. True)\<rparr>"

text \<open>No directory can be created.\<close>

definition failing_dir_host :: host where
  "failing_dir_host = quiet_host\<lparr>makedirs := (\<lambda>p. Some OSError)\<rparr>"

text \<open>The stop button is pressed during the extraction stage, after its last read of the flag.\<close>

definition stopping_host :: host where
  "stopping_host = quiet_host\<lparr>stop_build := (\<lambda>n. 5 \<le> n)\<rparr>"

section \<open>Evaluating a run\<close>

lemmas comp_defs =
  ret_def raise_def and_then_def then_do_def handle_def handle_subprocess_def catch_def catch_all_def ensure_def

lemmas step_defs =
  issue_def emit_def log_def poll_def snapshot_def path_exists_def set_fs_def do_makedirs_def run_proc_def
  run_checked_def do_popen_def do_walk_def do_unlink_def do_rename_def do_write_def
  gui_call_def app_log_def update_progress_def poll_build_def env_get_def is_exception_def

lemmas string_defs =
  strip_def is_space_def lower_def lower_char_def upper_letters_def lower_letters_def
  before_percent_def replace_spaces_def sep_def dq_def

lemmas float_defs =
  percent_of_def float_times_def float_trunc_def float_of_quotient_def round_half_even_def

lemmas extraction_defs =
  sevenzip_paths_def find_7zip_def sevenzip_line_def sevenzip_cmd_def sevenzip_monitor_def extract_with_7zip_try_def
  extract_with_7zip_def copy_step_def count_files_def copy_from_drive_def
  extract_with_windows_mount_try_def unmount_finally_def extract_with_windows_mount_def
  extract_iso_def

lemmas creation_defs =
  boot_files_def oscdimg_paths_def local_oscdimg_def find_oscdimg_def oscdimg_cmd_def oscdimg_line_def
  oscdimg_monitor_def create_iso_with_oscdimg_try_def create_iso_with_oscdimg_def write_archive_def
  create_basic_iso_try_def create_basic_iso_def powershell_line_def ensure_new_isofile_def
  powershell_monitor_def create_iso_with_powershell_try_def create_iso_with_powershell_def create_iso_def

lemmas download_defs =
  report_progress_def do_urlretrieve_def download_file_try_def download_file_def

lemmas app_defs =
  steps_def weight_def app_extract_iso_def app_rebuild_iso_def checkpoint_def workspace_def
  extract_dir_of_def output_iso_of_def stage_extract_def stage_tools_def stage_customize_def
  stage_rebuild_def build_thread_try_def build_thread_def

lemmas host_defs =
  join_backslash_def idle_process_def quiet_host_def empty_world_def demo_app_def
  mounted_host_def unmount_log_host_def oscdimg_host_def oscdimg_world_def skipping_host_def
  failing_log_host_def late_stop_host_def stop_host_def
  broken_download_host_def cancelled_download_host_def failing_dir_host_def stopping_host_def

lemmas observation_defs =
  is_unmount_def unmounts_def is_copy_def copies_def is_tool_event_def tool_events_def
  is_zip_open_def is_scripted_failure_def is_report_def reports_def tree_polls_def

section \<open>Facts about the steps\<close>

lemma log_quiet:
  "cb_quiet h \<Longrightarrow> log h m as p s = (Inr (), emit (Log m as p) (s\<lparr>logs := Suc (logs s)\<rparr>))"
  by (simp add: log_def issue_def cb_quiet_def)

lemma contained_catch:
  assumes "\<And>e x. contained (fst (handler e x))"
  shows "contained (fst (catch m handler s))"
proof (cases "m s")
  case (Pair r s1)
  then show ?thesis
    using assms by (cases r) (simp_all add: catch_def handle_def ret_def contained_def)
qed

lemma fails_catch:
  assumes "\<And>e x. fails (fst (handler e x))" and "fst (m s) \<noteq> Inr True"
  shows "fails (fst (catch m handler s))"
proof (cases "m s")
  case (Pair r s1)
  then show ?thesis
    using assms by (cases r) (auto simp add: catch_def handle_def ret_def fails_def)
qed

lemma contained_ensure:
  assumes "contained (fst (m s))" and "\<And>x. contained (fst (f x))"
  shows "contained (fst (ensure m f s))"
proof (cases "m s")
  case (Pair r s1)
  show ?thesis
  proof (cases "f s1")
    case (Pair u s2)
    then show ?thesis
      using assms(1) assms(2)[of s1] \<open>m s = (r, s1)\<close>
      by (cases u) (simp_all add: ensure_def contained_def)
  qed
qed

lemma fails_ensure:
  assumes "fails (fst (m s))" and "\<And>x. contained (fst (f x))"
  shows "fails (fst (ensure m f s))"
proof (cases "m s")
  case (Pair r s1)
  show ?thesis
  proof (cases "f s1")
    case (Pair u s2)
    then show ?thesis
      using assms(1) assms(2)[of s1] \<open>m s = (r, s1)\<close>
      by (cases u) (simp_all add: ensure_def contained_def fails_def)
  qed
qed

lemma fails_contained: "fails r \<Longrightarrow> contained r"
  by (cases r) (simp_all add: fails_def contained_def)

lemma handler_fails:
  "cb_quiet h \<Longrightarrow> fails (fst (then_do (log h m as p) (ret False) s))"
  by (simp add: log_quiet then_do_def and_then_def ret_def fails_def)

lemma handler_contained:
  "cb_quiet h \<Longrightarrow> contained (fst (then_do (log h m as p) (ret False) s))"
  by (simp add: handler_fails fails_contained)

subsection \<open>What a step adds to the trace\<close>

named_theorems emits_intros

lemma emitsD: "emits P m \<Longrightarrow> \<exists>es. events (snd (m s)) = events s @ es \<and> list_all P es"
  by (simp add: emits_def)

lemma emits_weaken: "emits P m \<Longrightarrow> (\<And>e. P e \<Longrightarrow> Q e) \<Longrightarrow> emits Q m"
  unfolding emits_def list_all_iff by metis

lemma emits_ret [emits_intros]: "emits P (ret v)"
  by (simp add: emits_def ret_def)

lemma emits_raise [emits_intros]: "emits P (raise e)"
  by (simp add: emits_def raise_def)

lemma emits_snapshot [emits_intros]: "emits P snapshot"
  by (simp add: emits_def snapshot_def)

lemma emits_path_exists [emits_intros]: "emits P (path_exists p)"
  by (simp add: emits_def path_exists_def)

lemma emits_set_fs [emits_intros]: "emits P (set_fs p b)"
  by (simp add: emits_def set_fs_def)

lemma emits_poll [emits_intros]: "emits P (poll h)"
  by (simp add: emits_def poll_def)

lemma emits_poll_build [emits_intros]: "emits P (poll_build h)"
  by (simp add: emits_def poll_build_def)

lemma emits_do_walk [emits_intros]: "emits P (do_walk h p)"
  by (simp add: emits_def do_walk_def)

lemma emits_issue [emits_intros]: "P e \<Longrightarrow> emits P (issue e out)"
  by (simp add: emits_def issue_def emit_def)

lemma emits_log [emits_intros]: "P (Log m as p) \<Longrightarrow> emits P (log h m as p)"
  by (simp add: emits_def log_def issue_def emit_def)

lemma emits_run_proc [emits_intros]: "P (Run c) \<Longrightarrow> emits P (run_proc h c)"
  by (simp add: emits_def run_proc_def emit_def)

lemma emits_do_popen [emits_intros]: "P (Popen c) \<Longrightarrow> emits P (do_popen h c)"
  by (simp add: emits_def do_popen_def emit_def)

lemma emits_and_then [emits_intros]:
  assumes "emits P m" and "\<And>v. emits P (k v)"
  shows "emits P (and_then m k)"
  unfolding emits_def
proof
  fix s
  obtain r s1 where m: "m s = (r, s1)" by (cases "m s")
  obtain es1 where es1: "events s1 = events s @ es1" "list_all P es1"
    using emitsD[OF assms(1), of s] m by auto
  show "\<exists>es. events (snd (and_then m k s)) = events s @ es \<and> list_all P es"
  proof (cases r)
    case (Inl e)
    then show ?thesis using m es1 by (simp add: and_then_def)
  next
    case (Inr v)
    obtain es2 where "events (snd (k v s1)) = events s1 @ es2" "list_all P es2"
      using emitsD[OF assms(2), of v s1] by auto
    then show ?thesis using m es1 Inr by (simp add: and_then_def)
  qed
qed

lemma emits_then_do [emits_intros]: "emits P m \<Longrightarrow> emits P k \<Longrightarrow> emits P (then_do m k)"
  by (simp add: then_do_def emits_and_then)

lemma emits_handle [emits_intros]:
  assumes "emits P m" and "\<And>v. emits P (on_ok v)" and "\<And>e. emits P (on_err e)"
  shows "emits P (handle m on_ok on_err)"
  unfolding emits_def
proof
  fix s
  obtain r s1 where m: "m s = (r, s1)" by (cases "m s")
  obtain es1 where es1: "events s1 = events s @ es1" "list_all P es1"
    using emitsD[OF assms(1), of s] m by auto
  show "\<exists>es. events (snd (handle m on_ok on_err s)) = events s @ es \<and> list_all P es"
  proof (cases r)
    case (Inl e)
    obtain es2 where "events (snd (on_err e s1)) = events s1 @ es2" "list_all P es2"
      using emitsD[OF assms(3), of e s1] by auto
    then show ?thesis using m es1 Inl by (simp add: handle_def)
  next
    case (Inr v)
    obtain es2 where "events (snd (on_ok v s1)) = events s1 @ es2" "list_all P es2"
      using emitsD[OF assms(2), of v s1] by auto
    then show ?thesis using m es1 Inr by (simp add: handle_def)
  qed
qed

lemma emits_catch [emits_intros]:
  "emits P m \<Longrightarrow> (\<And>e. emits P (handler e)) \<Longrightarrow> emits P (catch m handler)"
  by (simp add: catch_def emits_handle emits_ret)

lemma emits_catch_all [emits_intros]:
  assumes "emits P m" and "emits P handler"
  shows "emits P (catch_all m handler)"
  unfolding emits_def
proof
  fix s
  obtain r s1 where m: "m s = (r, s1)" by (cases "m s")
  obtain es1 where es1: "events s1 = events s @ es1" "list_all P es1"
    using emitsD[OF assms(1), of s] m by auto
  obtain es2 where es2: "events (snd (handler s1)) = events s1 @ es2" "list_all P es2"
    using emitsD[OF assms(2), of s1] by auto
  show "\<exists>es. events (snd (catch_all m handler s)) = events s @ es \<and> list_all P es"
    using m es1 es2 by (cases r) (simp_all add: catch_all_def)
qed

lemma emits_ensure [emits_intros]:
  assumes "emits P m" and "emits P f"
  shows "emits P (ensure m f)"
  unfolding emits_def
proof
  fix s
  obtain r s1 where m: "m s = (r, s1)" by (cases "m s")
  obtain es1 where es1: "events s1 = events s @ es1" "list_all P es1"
    using emitsD[OF assms(1), of s] m by auto
  obtain u s2 where f: "f s1 = (u, s2)" by (cases "f s1")
  obtain es2 where es2: "events s2 = events s1 @ es2" "list_all P es2"
    using emitsD[OF assms(2), of s1] f by auto
  show "\<exists>es. events (snd (ensure m f s)) = events s @ es \<and> list_all P es"
    using m f es1 es2 by (cases u) (simp_all add: ensure_def)
qed

lemma emits_do_makedirs [emits_intros]: "P (Makedirs p) \<Longrightarrow> emits P (do_makedirs h p)"
  by (simp add: do_makedirs_def emits_intros)

lemma emits_run_checked [emits_intros]: "P (Run c) \<Longrightarrow> emits P (run_checked h c)"
  by (auto simp add: run_checked_def intro!: emits_intros)

lemma emits_do_unlink [emits_intros]: "P (Unlink p) \<Longrightarrow> emits P (do_unlink h p)"
  by (simp add: do_unlink_def emits_intros)

lemma emits_do_rename [emits_intros]: "P (Rename p q) \<Longrightarrow> emits P (do_rename h p q)"
  by (simp add: do_rename_def emits_intros)

lemma emits_do_write [emits_intros]: "P (WriteFile p) \<Longrightarrow> emits P (do_write h p)"
  by (simp add: do_write_def emits_intros)

lemma emits_gui_call [emits_intros]: "P e \<Longrightarrow> emits P (gui_call h e)"
  by (simp add: gui_call_def emits_intros)

lemma emits_read_stdout [emits_intros]:
  assumes "\<And>l. emits P (on_line l)" and "P Terminate"
  shows "emits P (read_stdout h p on_line ls)"
  using assms by (induction ls) (auto intro!: emits_intros split: option.split)

lemma emits_sevenzip_line [emits_intros]:
  "(\<And>m as p. P (Log m as p)) \<Longrightarrow> emits P (sevenzip_line h l)"
  by (auto simp add: sevenzip_line_def intro!: emits_intros split: option.split)

lemma emits_oscdimg_line [emits_intros]:
  "(\<And>m as p. P (Log m as p)) \<Longrightarrow> emits P (oscdimg_line h l)"
  by (auto simp add: oscdimg_line_def intro!: emits_intros split: option.split)

lemma emits_powershell_line [emits_intros]:
  "(\<And>m as p. P (Log m as p)) \<Longrightarrow> emits P (powershell_line h l)"
  by (auto simp add: powershell_line_def intro!: emits_intros split: option.split)

subsection \<open>Sequencing at a state\<close>

lemma and_then_ok: "m s = (Inr v, s1) \<Longrightarrow> and_then m k s = k v s1"
  by (simp add: and_then_def)

lemma and_then_err: "m s = (Inl e, s1) \<Longrightarrow> and_then m k s = (Inl e, s1)"
  by (simp add: and_then_def)

lemma then_do_ok: "m s = (Inr u, s1) \<Longrightarrow> then_do m k s = k s1"
  by (simp add: then_do_def and_then_def)

lemma then_do_err: "m s = (Inl e, s1) \<Longrightarrow> then_do m k s = (Inl e, s1)"
  by (simp add: then_do_def and_then_def)

lemma catch_then_do_ok: "m s = (Inr u, s1) \<Longrightarrow> catch (then_do m k) handler s = catch k handler s1"
  by (simp add: catch_def handle_def then_do_def and_then_def)

lemma catch_and_then_ok:
  "m s = (Inr v, s1) \<Longrightarrow> catch (and_then m k) handler s = catch (k v) handler s1"
  by (simp add: catch_def handle_def and_then_def)

lemma catch_ext:
  assumes "\<And>e. emits P (handler e)"
  shows "\<exists>es. events (snd (catch m handler s)) = events (snd (m s)) @ es \<and> list_all P es"
proof (cases "m s")
  case (Pair r s1)
  show ?thesis
  proof (cases r)
    case (Inl e)
    obtain es where "events (snd (handler e s1)) = events s1 @ es" "list_all P es"
      using emitsD[OF assms, of e s1] by auto
    then show ?thesis using Pair Inl by (simp add: catch_def handle_def)
  next
    case (Inr v)
    then show ?thesis using Pair by (simp add: catch_def handle_def ret_def)
  qed
qed

lemma popen_then:
  assumes "\<And>v. emits P (k v)"
  shows "\<exists>es. events (snd (and_then (do_popen h c) k s)) = events s @ Popen c # es \<and>
              list_all P es"
proof (cases "popen h c")
  case (Inl e)
  then show ?thesis by (simp add: and_then_def do_popen_def emit_def)
next
  case (Inr p)
  obtain es where "events (snd (k p (emit (Popen c) s))) = events (emit (Popen c) s) @ es"
      "list_all P es"
    using emitsD[OF assms, of p "emit (Popen c) s"] by auto
  then show ?thesis using Inr by (auto simp add: and_then_def do_popen_def emit_def)
qed

lemma run_then:
  assumes "\<And>v. emits P (k v)"
  shows "\<exists>es. events (snd (and_then (run_proc h c) k s)) = events s @ Run c # es \<and>
              list_all P es"
proof (cases "run h c")
  case (Inl e)
  then show ?thesis by (simp add: and_then_def run_proc_def emit_def)
next
  case (Inr p)
  obtain es where "events (snd (k p (emit (Run c) s))) = events (emit (Run c) s) @ es"
      "list_all P es"
    using emitsD[OF assms, of p "emit (Run c) s"] by auto
  then show ?thesis using Inr by (auto simp add: and_then_def run_proc_def emit_def)
qed

lemma read_stdout_result: "fst (read_stdout h p on_line ls s) \<noteq> Inr (Some True)"
proof (induction ls arbitrary: s)
  case Nil
  show ?case by (simp add: ret_def raise_def split: option.split)
next
  case (Cons l ls)
  show ?case
  proof (cases "stop_requested h (polls s)")
    case True
    then show ?thesis
      by (simp add: and_then_def then_do_def poll_def issue_def ret_def split: option.split)
  next
    case False
    obtain r s1 where l: "on_line l (s\<lparr>polls := Suc (polls s)\<rparr>) = (r, s1)"
      by (cases "on_line l (s\<lparr>polls := Suc (polls s)\<rparr>)")
    show ?thesis
      using False l Cons.IH[of s1]
      by (cases r) (simp_all add: and_then_def then_do_def poll_def)
  qed
qed

lemma fails_not_True: "fails r \<Longrightarrow> r \<noteq> Inr True"
  by (auto simp add: fails_def)

subsection \<open>The native masterer\<close>

lemma boot_file_names:
  "contains (lower ''etfsboot.com'') ''efi'' = False"
  "contains (lower ''efisys.bin'') ''efi'' = True"
  by (simp_all add: lower_def lower_char_def upper_letters_def lower_letters_def)

lemma oscdimg_boot_args_fs:
  "fs s = fs s' \<Longrightarrow> oscdimg_boot_args h s src fl = oscdimg_boot_args h s' src fl"
  by (induction fl) (simp_all add: Let_def)

lemma oscdimg_boot_args_find:
  "oscdimg_boot_args h s src fl =
     (case find (\<lambda>f. fs s (path_join h [src, ''boot'', f])) fl of
        None \<Rightarrow> []
      | Some f \<Rightarrow> [''-b'', path_join h [src, ''boot'', f]] @
                  (if contains (lower f) ''efi'' then [''-e'', ''-u1''] else []))"
  by (induction fl) (simp_all add: Let_def)

lemma oscdimg_cmd_fs:
  "fs s = fs s' \<Longrightarrow> oscdimg_cmd h s p src out label = oscdimg_cmd h s' p src out label"
  by (simp add: oscdimg_cmd_def oscdimg_boot_args_fs[of s s'])

lemma oscdimg_cmd_events [simp]:
  "oscdimg_cmd h (s\<lparr>events := es\<rparr>) p src out label = oscdimg_cmd h s p src out label"
  by (rule oscdimg_cmd_fs) simp

lemma oscdimg_cmd_logs [simp]:
  "oscdimg_cmd h (s\<lparr>logs := n\<rparr>) p src out label = oscdimg_cmd h s p src out label"
  by (rule oscdimg_cmd_fs) simp

lemma emits_oscdimg_monitor [emits_intros]:
  "(\<And>m as p. P (Log m as p)) \<Longrightarrow> P Terminate \<Longrightarrow> P Wait \<Longrightarrow> emits P (oscdimg_monitor h pr)"
  by (auto simp add: oscdimg_monitor_def intro!: emits_intros split: option.split)

lemma oscdimg_monitor_result:
  "returncode pr \<noteq> 0 \<Longrightarrow> fst (oscdimg_monitor h pr s) \<noteq> Inr True"
proof -
  assume rc: "returncode pr \<noteq> 0"
  obtain r s1 where r: "read_stdout h pr (oscdimg_line h) (stdout_lines pr) s = (r, s1)"
    by (cases "read_stdout h pr (oscdimg_line h) (stdout_lines pr) s")
  have "r \<noteq> Inr (Some True)"
    using read_stdout_result[of h pr "oscdimg_line h" "stdout_lines pr" s] r by simp
  then show ?thesis
    using r rc
    by (auto simp add: oscdimg_monitor_def and_then_def then_do_def issue_def ret_def log_def
        split: sum.split option.split)
qed

lemma create_iso_with_oscdimg_try_starts:
  "\<exists>es. events (snd (create_iso_with_oscdimg_try h p src out label s)) =
          events s @
          [Log ''Creating ISO with oscdimg.exe...'' [] None] @
          (if callback h (logs s) = None
           then [Log ''Running: {' '.join(cmd)}'' [Ss (oscdimg_cmd h s p src out label)] None] @
                (if callback h (Suc (logs s)) = None
                 then [Popen (Argv (oscdimg_cmd h s p src out label))] else [])
           else []) @ es"
proof (cases "callback h (logs s)")
  case (Some x)
  then show ?thesis
    by (simp add: create_iso_with_oscdimg_try_def then_do_def and_then_def log_def issue_def
        emit_def)
next
  case None
  note first = None
  show ?thesis
  proof (cases "callback h (Suc (logs s))")
    case (Some x)
    then show ?thesis
      using first
      by (simp add: create_iso_with_oscdimg_try_def then_do_def and_then_def log_def issue_def
          snapshot_def Let_def emit_def)
  next
    case None
    let ?cmd = "oscdimg_cmd h s p src out label"
    let ?s1 = "emit (Log ''Creating ISO with oscdimg.exe...'' [] None) (s\<lparr>logs := Suc (logs s)\<rparr>)"
    let ?s2 = "emit (Log ''Running: {' '.join(cmd)}'' [Ss ?cmd] None) (?s1\<lparr>logs := Suc (logs ?s1)\<rparr>)"
    obtain es where es:
      "events (snd (and_then (do_popen h (Argv ?cmd)) (oscdimg_monitor h) ?s2)) =
         events ?s2 @ Popen (Argv ?cmd) # es"
      using popen_then[of "\<lambda>e. True" "oscdimg_monitor h" h "Argv ?cmd" ?s2]
      by (auto intro: emits_oscdimg_monitor)
    have "create_iso_with_oscdimg_try h p src out label s =
            and_then (do_popen h (Argv ?cmd)) (oscdimg_monitor h) ?s2"
      using first None
      by (simp add: create_iso_with_oscdimg_try_def then_do_def and_then_def log_def issue_def
          snapshot_def Let_def emit_def)
    then show ?thesis
      using es first None by (simp add: emit_def)
  qed
qed

lemma create_iso_with_oscdimg_starts:
  "\<exists>es. events (snd (create_iso_with_oscdimg h p src out label s)) =
          events s @
          [Log ''Creating ISO with oscdimg.exe...'' [] None] @
          (if callback h (logs s) = None
           then [Log ''Running: {' '.join(cmd)}'' [Ss (oscdimg_cmd h s p src out label)] None] @
                (if callback h (Suc (logs s)) = None
                 then [Popen (Argv (oscdimg_cmd h s p src out label))] else [])
           else []) @ es"
proof -
  obtain es1 where es1:
    "events (snd (create_iso_with_oscdimg_try h p src out label s)) =
          events s @
          [Log ''Creating ISO with oscdimg.exe...'' [] None] @
          (if callback h (logs s) = None
           then [Log ''Running: {' '.join(cmd)}'' [Ss (oscdimg_cmd h s p src out label)] None] @
                (if callback h (Suc (logs s)) = None
                 then [Popen (Argv (oscdimg_cmd h s p src out label))] else [])
           else []) @ es1"
    using create_iso_with_oscdimg_try_starts[of h p src out label s] by blast
  obtain es2 where
    "events (snd (create_iso_with_oscdimg h p src out label s)) =
       events (snd (create_iso_with_oscdimg_try h p src out label s)) @ es2"
    unfolding create_iso_with_oscdimg_def
    using catch_ext[of "\<lambda>e. True"
        "\<lambda>e. then_do (log h ''Error creating ISO with oscdimg: {e}'' [E e] (Some 0)) (ret False)"
        "create_iso_with_oscdimg_try h p src out label" s]
    by (auto intro!: emits_intros)
  then show ?thesis
    using es1 by simp
qed

lemma and_then_assoc: "and_then (and_then m f) g = and_then m (\<lambda>v. and_then (f v) g)"
proof
  fix s
  show "and_then (and_then m f) g s = and_then m (\<lambda>v. and_then (f v) g) s"
  proof (cases "m s")
    case (Pair r s1)
    then show ?thesis by (cases r) (simp_all add: and_then_def)
  qed
qed

lemma emits_create_iso_with_oscdimg_try [emits_intros]:
  assumes "\<And>m as p. P (Log m as p)" and "\<And>c. P (Popen c)" and "P Terminate" and "P Wait"
  shows "emits P (create_iso_with_oscdimg_try h p src out label)"
  using assms
  by (auto simp add: create_iso_with_oscdimg_try_def Let_def intro!: emits_intros)

lemma emits_create_iso_with_oscdimg [emits_intros]:
  assumes "\<And>m as p. P (Log m as p)" and "\<And>c. P (Popen c)" and "P Terminate" and "P Wait"
  shows "emits P (create_iso_with_oscdimg h p src out label)"
  using assms
  by (auto simp add: create_iso_with_oscdimg_def intro!: emits_intros)

lemma emits_find_oscdimg [emits_intros]:
  "(\<And>m as p. P (Log m as p)) \<Longrightarrow> emits P (find_oscdimg h)"
  by (auto simp add: find_oscdimg_def intro!: emits_intros split: option.split)

lemma find_oscdimg_found:
  assumes "fst (find_oscdimg h s) = Inr (Some path)" and "fs s' = fs s"
  shows "find_oscdimg h s' = (Inr (Some path), s')"
  using assms
  by (auto simp add: find_oscdimg_def and_then_def snapshot_def ret_def then_do_def log_def
      issue_def split: option.splits if_splits)

lemma find_oscdimg_absent:
  assumes "cb_quiet h" and "find (fs s) (oscdimg_paths h) = None" and "\<not> fs s (local_oscdimg h)"
  shows "find_oscdimg h s =
           (Inr None,
            emit (Log ''oscdimg.exe not found on system. Using PowerShell fallback method.''
                    [] None) (s\<lparr>logs := Suc (logs s)\<rparr>))"
  using assms
  by (simp add: find_oscdimg_def and_then_def snapshot_def ret_def then_do_def log_quiet)

lemma create_iso_with_oscdimg_quiet:
  assumes "cb_quiet h"
  shows "\<exists>es. events (snd (create_iso_with_oscdimg h p src out label s)) =
               events s @
               [Log ''Creating ISO with oscdimg.exe...'' [] None,
                Log ''Running: {' '.join(cmd)}'' [Ss (oscdimg_cmd h s p src out label)] None,
                Popen (Argv (oscdimg_cmd h s p src out label))] @ es \<and>
              list_all (\<lambda>e. \<not> is_tool_event e) es"
proof -
  let ?P = "\<lambda>e. \<not> is_tool_event e"
  let ?cmd = "oscdimg_cmd h s p src out label"
  let ?s1 = "emit (Log ''Creating ISO with oscdimg.exe...'' [] None) (s\<lparr>logs := Suc (logs s)\<rparr>)"
  let ?s2 = "emit (Log ''Running: {' '.join(cmd)}'' [Ss ?cmd] None) (?s1\<lparr>logs := Suc (logs ?s1)\<rparr>)"
  have monitor: "emits ?P (oscdimg_monitor h v)" for v
    by (rule emits_oscdimg_monitor) (simp_all add: is_tool_event_def)
  have handler: "emits ?P (then_do (log h ''Error creating ISO with oscdimg: {e}'' [E e] (Some 0))
                             (ret False))" for e
    by (intro emits_then_do emits_log emits_ret) (simp add: is_tool_event_def)
  obtain es1 where es1:
    "events (snd (and_then (do_popen h (Argv ?cmd)) (oscdimg_monitor h) ?s2)) =
       events ?s2 @ Popen (Argv ?cmd) # es1" "list_all ?P es1"
    using popen_then[of ?P "oscdimg_monitor h" h "Argv ?cmd" ?s2, OF monitor] by blast
  have tried: "create_iso_with_oscdimg_try h p src out label s =
               and_then (do_popen h (Argv ?cmd)) (oscdimg_monitor h) ?s2"
    using assms
    by (simp add: create_iso_with_oscdimg_try_def then_do_def and_then_def log_quiet snapshot_def
        Let_def emit_def)
  obtain es2 where es2:
    "events (snd (create_iso_with_oscdimg h p src out label s)) =
       events (snd (create_iso_with_oscdimg_try h p src out label s)) @ es2" "list_all ?P es2"
    unfolding create_iso_with_oscdimg_def
    using catch_ext[of ?P
        "\<lambda>e. then_do (log h ''Error creating ISO with oscdimg: {e}'' [E e] (Some 0)) (ret False)"
        "create_iso_with_oscdimg_try h p src out label" s, OF handler]
    by blast
  show ?thesis
    using es1 es2 tried by (simp add: emit_def)
qed

lemma create_iso_with_oscdimg_fails:
  assumes "cb_quiet h"
    and "popen h (Argv (oscdimg_cmd h s p src out label)) = Inr pr"
    and "returncode pr \<noteq> 0"
  shows "fails (fst (create_iso_with_oscdimg h p src out label s))"
  unfolding create_iso_with_oscdimg_def
proof (rule fails_catch)
  fix e x
  show "fails (fst (then_do (log h ''Error creating ISO with oscdimg: {e}'' [E e] (Some 0))
                      (ret False) x))"
    using assms(1) by (rule handler_fails)
next
  let ?cmd = "oscdimg_cmd h s p src out label"
  let ?s1 = "emit (Log ''Creating ISO with oscdimg.exe...'' [] None) (s\<lparr>logs := Suc (logs s)\<rparr>)"
  let ?s2 = "emit (Log ''Running: {' '.join(cmd)}'' [Ss ?cmd] None) (?s1\<lparr>logs := Suc (logs ?s1)\<rparr>)"
  have "create_iso_with_oscdimg_try h p src out label s =
          oscdimg_monitor h pr (emit (Popen (Argv ?cmd)) ?s2)"
    using assms(1,2)
    by (simp add: create_iso_with_oscdimg_try_def then_do_def and_then_def log_quiet snapshot_def
        Let_def emit_def do_popen_def)
  then show "fst (create_iso_with_oscdimg_try h p src out label s) \<noteq> Inr True"
    using oscdimg_monitor_result[OF assms(3)] by simp
qed

lemma create_iso_native:
  assumes "cb_quiet h" and "fst (find_oscdimg h s) = Inr (Some path)" and "path \<noteq> []"
  shows "create_iso h src out label s =
           catch (create_iso_with_oscdimg h path src out label)
             (\<lambda>e. then_do (log h ''Error creating ISO: {e}'' [E e] (Some 0)) (ret False))
             (emit (Log ''Creating ISO from {source_dir} to {output_iso}'' [S src, S out] None)
                (s\<lparr>logs := Suc (logs s)\<rparr>))"
proof -
  let ?s1 = "emit (Log ''Creating ISO from {source_dir} to {output_iso}'' [S src, S out] None)
                (s\<lparr>logs := Suc (logs s)\<rparr>)"
  have found: "find_oscdimg h ?s1 = (Inr (Some path), ?s1)"
    using assms(2) by (rule find_oscdimg_found) (simp add: emit_def)
  show ?thesis
    by (simp add: create_iso_def catch_def handle_def then_do_def and_then_def
        log_quiet[OF assms(1)] found assms(3))
qed

subsection \<open>The raw archive and the scripted tier\<close>

lemma emits_archive_files [emits_intros]:
  assumes "\<And>a b. P (ZipWrite a b)" and "\<And>m as p. P (Log m as p)"
  shows "emits P (archive_files h src root n files k)"
  using assms
  by (induction files arbitrary: k) (auto simp add: Let_def intro!: emits_intros)

lemma emits_archive_tree [emits_intros]:
  assumes "\<And>a b. P (ZipWrite a b)" and "\<And>m as p. P (Log m as p)"
  shows "emits P (archive_tree h src n tree k)"
  using assms
proof (induction tree arbitrary: k)
  case Nil
  show ?case by (simp add: emits_intros)
next
  case (Cons a tree)
  obtain root dirs files where a: "a = (root, dirs, files)" by (cases a)
  show ?case
    unfolding a
    using Cons
    by (auto intro!: emits_intros split: option.split)
qed

lemma emits_write_archive [emits_intros]:
  assumes "\<And>a b. P (ZipWrite a b)" and "\<And>m as p. P (Log m as p)"
    and "\<And>z. P (ZipOpen z)" and "P ZipClose"
  shows "emits P (write_archive h src z)"
  using assms by (auto simp add: write_archive_def intro!: emits_intros)

lemma emits_create_basic_iso [emits_intros]:
  "emits (\<lambda>e. True) (create_basic_iso h src out label)"
  by (auto simp add: create_basic_iso_def create_basic_iso_try_def intro!: emits_intros
      split: option.split)

lemma emits_ensure_new_isofile [emits_intros]:
  assumes "\<And>m as p. P (Log m as p)" and "\<And>c. P (Run c)" and "\<And>f. P (WriteFile f)"
  shows "emits P (ensure_new_isofile h)"
  using assms
  by (auto simp add: ensure_new_isofile_def Let_def intro!: emits_intros)

lemma emits_powershell_monitor [emits_intros]:
  "emits (\<lambda>e. True) (powershell_monitor h src out label p)"
  by (auto simp add: powershell_monitor_def intro!: emits_intros split: option.split)

lemma emits_create_iso_with_powershell [emits_intros]:
  "emits (\<lambda>e. True) (create_iso_with_powershell h src out label)"
  by (auto simp add: create_iso_with_powershell_def create_iso_with_powershell_try_def Let_def
      intro!: emits_intros split: option.split)

lemma powershell_try_probe:
  "\<exists>k. create_iso_with_powershell_try h src out label =
          then_do (log h ''Creating ISO with PowerShell...'' [] None)
            (and_then (run_proc h GetCommandNewIsoFile) k) \<and>
        (\<forall>v. emits (\<lambda>e. True) (k v))"
  unfolding create_iso_with_powershell_try_def ensure_new_isofile_def and_then_assoc
  by (rule exI, rule conjI, rule refl)
    (auto simp add: Let_def intro!: emits_intros split: option.split)

lemma create_iso_with_powershell_probe:
  assumes "cb_quiet h"
  shows "\<exists>es. events (snd (create_iso_with_powershell h src out label s)) =
               events s @ [Log ''Creating ISO with PowerShell...'' [] None,
                           Run GetCommandNewIsoFile] @ es"
proof -
  obtain k where k:
    "create_iso_with_powershell_try h src out label =
       then_do (log h ''Creating ISO with PowerShell...'' [] None)
         (and_then (run_proc h GetCommandNewIsoFile) k)"
    "\<And>v. emits (\<lambda>e. True) (k v)"
    using powershell_try_probe[of h src out label] by blast
  let ?s1 = "emit (Log ''Creating ISO with PowerShell...'' [] None) (s\<lparr>logs := Suc (logs s)\<rparr>)"
  obtain es1 where es1:
    "events (snd (and_then (run_proc h GetCommandNewIsoFile) k ?s1)) =
       events ?s1 @ Run GetCommandNewIsoFile # es1"
    using run_then[of "\<lambda>e. True" k h GetCommandNewIsoFile ?s1] k(2) by auto
  have tried: "create_iso_with_powershell_try h src out label s =
               and_then (run_proc h GetCommandNewIsoFile) k ?s1"
    by (simp add: k(1) then_do_def and_then_def log_quiet[OF assms])
  obtain es2 where es2:
    "events (snd (create_iso_with_powershell h src out label s)) =
       events (snd (create_iso_with_powershell_try h src out label s)) @ es2"
    unfolding create_iso_with_powershell_def
    using catch_ext[of "\<lambda>e. True"
        "\<lambda>e. then_do (log h ''Error creating ISO with PowerShell: {e}'' [E e] (Some 0))
               (create_basic_iso h src out label)"
        "create_iso_with_powershell_try h src out label" s]
    by (auto intro!: emits_intros)
  show ?thesis
    using es1 es2 tried by (simp add: emit_def)
qed

lemma create_iso_scripted:
  assumes "cb_quiet h" and "find (fs s) (oscdimg_paths h) = None"
    and "\<not> fs s (local_oscdimg h)"
  shows "create_iso h src out label s =
           catch (create_iso_with_powershell h src out label)
             (\<lambda>e. then_do (log h ''Error creating ISO: {e}'' [E e] (Some 0)) (ret False))
             (emit (Log ''oscdimg.exe not found on system. Using PowerShell fallback method.''
                      [] None)
                ((emit (Log ''Creating ISO from {source_dir} to {output_iso}''
                          [S src, S out] None)
                    (s\<lparr>logs := Suc (logs s)\<rparr>))\<lparr>logs := Suc (Suc (logs s))\<rparr>))"
proof -
  let ?s1 = "emit (Log ''Creating ISO from {source_dir} to {output_iso}'' [S src, S out] None)
                (s\<lparr>logs := Suc (logs s)\<rparr>)"
  have absent: "find_oscdimg h ?s1 =
      (Inr None,
       emit (Log ''oscdimg.exe not found on system. Using PowerShell fallback method.'' [] None)
         (?s1\<lparr>logs := Suc (logs ?s1)\<rparr>))"
    using assms by (intro find_oscdimg_absent) (simp_all add: emit_def)
  show ?thesis
    by (simp add: create_iso_def catch_def handle_def then_do_def and_then_def
        log_quiet[OF assms(1)] absent)
      (simp add: emit_def)
qed

subsection \<open>When the raw archive is opened\<close>

lemma gatedD:
  "gated m \<Longrightarrow> \<exists>pre post. events (snd (m s)) = events s @ pre @ post \<and>
     list_all (\<lambda>e. \<not> is_zip_open e) pre \<and> (post = [] \<or> is_scripted_failure (hd post))"
  by (simp add: gated_def)

lemma gated_emits: "emits (\<lambda>e. \<not> is_zip_open e) m \<Longrightarrow> gated m"
  unfolding gated_def emits_def
proof
  fix s
  assume "\<forall>s. \<exists>es. events (snd (m s)) = events s @ es \<and> list_all (\<lambda>e. \<not> is_zip_open e) es"
  then obtain es where "events (snd (m s)) = events s @ es" "list_all (\<lambda>e. \<not> is_zip_open e) es"
    by blast
  then have "events (snd (m s)) = events s @ es @ [] \<and> list_all (\<lambda>e. \<not> is_zip_open e) es \<and>
             ([] = [] \<or> is_scripted_failure (hd []))"
    by simp
  then show "\<exists>pre post. events (snd (m s)) = events s @ pre @ post \<and>
      list_all (\<lambda>e. \<not> is_zip_open e) pre \<and> (post = [] \<or> is_scripted_failure (hd post))"
    by blast
qed

lemma gated_append:
  assumes "list_all (\<lambda>e. \<not> is_zip_open e) pre1" and "post1 = [] \<or> is_scripted_failure (hd post1)"
    and "list_all (\<lambda>e. \<not> is_zip_open e) pre2" and "post2 = [] \<or> is_scripted_failure (hd post2)"
  shows "\<exists>pre post. (pre1 @ post1) @ (pre2 @ post2) = pre @ post \<and>
           list_all (\<lambda>e. \<not> is_zip_open e) pre \<and> (post = [] \<or> is_scripted_failure (hd post))"
proof (cases "post1 = []")
  case True
  then have "(pre1 @ post1) @ (pre2 @ post2) = (pre1 @ pre2) @ post2 \<and>
             list_all (\<lambda>e. \<not> is_zip_open e) (pre1 @ pre2) \<and>
             (post2 = [] \<or> is_scripted_failure (hd post2))"
    using assms by simp
  then show ?thesis by blast
next
  case False
  then have "(pre1 @ post1) @ (pre2 @ post2) = pre1 @ (post1 @ pre2 @ post2) \<and>
             list_all (\<lambda>e. \<not> is_zip_open e) pre1 \<and>
             (post1 @ pre2 @ post2 = [] \<or> is_scripted_failure (hd (post1 @ pre2 @ post2)))"
    using assms by simp
  then show ?thesis by blast
qed

lemma gated_handle:
  assumes "gated m" and "\<And>v. gated (on_ok v)" and "\<And>e. gated (on_err e)"
  shows "gated (handle m on_ok on_err)"
  unfolding gated_def
proof
  fix s
  obtain r s1 where m: "m s = (r, s1)" by (cases "m s")
  obtain pre1 post1 where 1: "events s1 = events s @ pre1 @ post1"
      "list_all (\<lambda>e. \<not> is_zip_open e) pre1" "post1 = [] \<or> is_scripted_failure (hd post1)"
    using gatedD[OF assms(1), of s] m by auto
  have "\<exists>pre2 post2. events (snd (handle m on_ok on_err s)) = events s1 @ pre2 @ post2 \<and>
      list_all (\<lambda>e. \<not> is_zip_open e) pre2 \<and> (post2 = [] \<or> is_scripted_failure (hd post2))"
  proof (cases r)
    case (Inl e)
    show ?thesis
    proof (cases "is_exception e")
      case True
      then show ?thesis
        using gatedD[OF assms(3), of e s1] m Inl by (simp add: handle_def)
    next
      case False
      have "events s1 = events s1 @ [] @ [] \<and> list_all (\<lambda>e. \<not> is_zip_open e) [] \<and>
            ([] = [] \<or> is_scripted_failure (hd []))" by simp
      then show ?thesis
        using m Inl False by (simp add: handle_def)
    qed
  next
    case (Inr v)
    then show ?thesis
      using gatedD[OF assms(2), of v s1] m by (simp add: handle_def)
  qed
  then obtain pre2 post2 where 2:
      "events (snd (handle m on_ok on_err s)) = events s1 @ pre2 @ post2"
      "list_all (\<lambda>e. \<not> is_zip_open e) pre2" "post2 = [] \<or> is_scripted_failure (hd post2)"
    by blast
  obtain pre post where "(pre1 @ post1) @ (pre2 @ post2) = pre @ post"
      "list_all (\<lambda>e. \<not> is_zip_open e) pre" "post = [] \<or> is_scripted_failure (hd post)"
    using gated_append[OF 1(2) 1(3) 2(2) 2(3)] by blast
  then have "events (snd (handle m on_ok on_err s)) = events s @ pre @ post \<and>
      list_all (\<lambda>e. \<not> is_zip_open e) pre \<and> (post = [] \<or> is_scripted_failure (hd post))"
    using 1(1) 2(1) by simp
  then show "\<exists>pre post. events (snd (handle m on_ok on_err s)) = events s @ pre @ post \<and>
      list_all (\<lambda>e. \<not> is_zip_open e) pre \<and> (post = [] \<or> is_scripted_failure (hd post))"
    by blast
qed

lemma gated_ret: "gated (ret v)"
  by (rule gated_emits) (rule emits_ret)

lemma gated_catch: "gated m \<Longrightarrow> (\<And>e. gated (handler e)) \<Longrightarrow> gated (catch m handler)"
  by (simp add: catch_def gated_handle gated_ret)

lemma gated_raise_all: "gated (\<lambda>s. (Inl e, s))"
  by (rule gated_emits) (simp add: emits_def)

lemma gated_and_then:
  assumes "gated m" and "\<And>v. gated (k v)"
  shows "gated (and_then m k)"
proof -
  have "gated (\<lambda>s. case m s of (Inl e, s1) \<Rightarrow> (Inl e, s1) | (Inr v, s1) \<Rightarrow> k v s1)"
    unfolding gated_def
  proof
    fix s
    obtain r s1 where m: "m s = (r, s1)" by (cases "m s")
    obtain pre1 post1 where 1: "events s1 = events s @ pre1 @ post1"
        "list_all (\<lambda>e. \<not> is_zip_open e) pre1" "post1 = [] \<or> is_scripted_failure (hd post1)"
      using gatedD[OF assms(1), of s] m by auto
    let ?r = "case m s of (Inl e, s1) \<Rightarrow> (Inl e, s1) | (Inr v, s1) \<Rightarrow> k v s1"
    have "\<exists>pre2 post2. events (snd ?r) = events s1 @ pre2 @ post2 \<and>
        list_all (\<lambda>e. \<not> is_zip_open e) pre2 \<and> (post2 = [] \<or> is_scripted_failure (hd post2))"
    proof (cases r)
      case (Inl e)
      have "events s1 = events s1 @ [] @ [] \<and> list_all (\<lambda>e. \<not> is_zip_open e) [] \<and>
            ([] = [] \<or> is_scripted_failure (hd []))" by simp
      then show ?thesis using m Inl by simp
    next
      case (Inr v)
      then show ?thesis using gatedD[OF assms(2), of v s1] m by simp
    qed
    then obtain pre2 post2 where 2: "events (snd ?r) = events s1 @ pre2 @ post2"
        "list_all (\<lambda>e. \<not> is_zip_open e) pre2" "post2 = [] \<or> is_scripted_failure (hd post2)"
      by blast
    obtain pre post where "(pre1 @ post1) @ (pre2 @ post2) = pre @ post"
        "list_all (\<lambda>e. \<not> is_zip_open e) pre" "post = [] \<or> is_scripted_failure (hd post)"
      using gated_append[OF 1(2) 1(3) 2(2) 2(3)] by blast
    then have "events (snd ?r) = events s @ pre @ post \<and>
        list_all (\<lambda>e. \<not> is_zip_open e) pre \<and> (post = [] \<or> is_scripted_failure (hd post))"
      using 1(1) 2(1) by simp
    then show "\<exists>pre post. events (snd ?r) = events s @ pre @ post \<and>
        list_all (\<lambda>e. \<not> is_zip_open e) pre \<and> (post = [] \<or> is_scripted_failure (hd post))"
      by blast
  qed
  moreover have "and_then m k = (\<lambda>s. case m s of (Inl e, s1) \<Rightarrow> (Inl e, s1) | (Inr v, s1) \<Rightarrow> k v s1)"
    by (rule ext) (simp add: and_then_def)
  ultimately show ?thesis by simp
qed

lemma gated_then_do: "gated m \<Longrightarrow> gated k \<Longrightarrow> gated (then_do m k)"
  by (simp add: then_do_def gated_and_then)

lemma gated_failure:
  assumes "is_scripted_failure (Log m as p)" and "emits (\<lambda>e. True) k"
  shows "gated (then_do (log h m as p) k)"
  unfolding gated_def
proof
  fix s
  obtain es where es: "events (snd (then_do (log h m as p) k s)) = events s @ Log m as p # es"
  proof (cases "callback h (logs s)")
    case None
    obtain es where "events (snd (k (emit (Log m as p) (s\<lparr>logs := Suc (logs s)\<rparr>)))) =
        events (emit (Log m as p) (s\<lparr>logs := Suc (logs s)\<rparr>)) @ es"
      using emitsD[OF assms(2), of "emit (Log m as p) (s\<lparr>logs := Suc (logs s)\<rparr>)"] by blast
    then have "events (snd (then_do (log h m as p) k s)) = events s @ Log m as p # es"
      using None by (simp add: then_do_def and_then_def log_def issue_def emit_def)
    then show ?thesis by (rule that)
  next
    case (Some x)
    then have "events (snd (then_do (log h m as p) k s)) = events s @ Log m as p # []"
      by (simp add: then_do_def and_then_def log_def issue_def emit_def)
    then show ?thesis by (rule that)
  qed
  then have "events (snd (then_do (log h m as p) k s)) = events s @ [] @ (Log m as p # es) \<and>
      list_all (\<lambda>e. \<not> is_zip_open e) [] \<and>
      (Log m as p # es = [] \<or> is_scripted_failure (hd (Log m as p # es)))"
    using assms(1) by simp
  then show "\<exists>pre post. events (snd (then_do (log h m as p) k s)) = events s @ pre @ post \<and>
      list_all (\<lambda>e. \<not> is_zip_open e) pre \<and> (post = [] \<or> is_scripted_failure (hd post))"
    by blast
qed

lemma gated_powershell_monitor: "gated (powershell_monitor h src out label p)"
  unfolding powershell_monitor_def
proof (rule gated_and_then)
  show "gated (read_stdout h p (powershell_line h) (stdout_lines p))"
    by (rule gated_emits) (auto intro!: emits_intros simp add: is_zip_open_def)
next
  fix v :: "bool option"
  have wait: "gated (issue Wait None)"
    by (rule gated_emits) (auto intro!: emits_intros simp add: is_zip_open_def)
  have good: "gated (then_do (log h ''ISO created successfully with PowerShell'' [] None)
                       (ret True))"
    by (rule gated_emits) (auto intro!: emits_intros simp add: is_zip_open_def)
  have bad: "gated (then_do (log h ''PowerShell ISO creation failed: {error}''
                               [S (stderr_text p)] (Some 0))
                      (create_basic_iso h src out label))"
    by (rule gated_failure) (simp_all add: is_scripted_failure_def emits_create_basic_iso)
  show "gated (case v of
                 None \<Rightarrow>
                   then_do (issue Wait None)
                     (if returncode p = 0
                      then then_do (log h ''ISO created successfully with PowerShell'' [] None)
                             (ret True)
                      else then_do (log h ''PowerShell ISO creation failed: {error}''
                                      [S (stderr_text p)] (Some 0))
                             (create_basic_iso h src out label))
               | Some b \<Rightarrow> ret b)"
  proof (cases v)
    case None
    show ?thesis
      unfolding None
      by (cases "returncode p = 0") (simp_all add: gated_then_do wait good bad)
  next
    case (Some b)
    show ?thesis
      unfolding Some by (simp add: gated_ret)
  qed
qed

lemma gated_create_iso_with_powershell_try:
  "gated (create_iso_with_powershell_try h src out label)"
  unfolding create_iso_with_powershell_try_def
proof (intro gated_then_do gated_and_then)
  show "gated (log h ''Creating ISO with PowerShell...'' [] None)"
    by (rule gated_emits) (auto intro!: emits_intros simp add: is_zip_open_def)
  show "gated (ensure_new_isofile h)"
    by (rule gated_emits) (auto intro!: emits_intros simp add: is_zip_open_def)
  show "gated snapshot"
    by (rule gated_emits) (rule emits_snapshot)
next
  fix assigned :: "string option" and w :: world
  have start: "gated (then_do (log h ''Running PowerShell ISO creation...'' [] None)
                        (and_then (do_popen h c) (powershell_monitor h src out label)))" for c
    by (intro gated_then_do gated_and_then gated_powershell_monitor gated_emits)
      (auto intro!: emits_intros simp add: is_zip_open_def)
  have "gated (raise NameError :: bool comp)"
    by (rule gated_emits) (rule emits_raise)
  then show "gated (let boot_args = powershell_boot_args h w src boot_files
                    in case assigned of
                         None \<Rightarrow> raise NameError
                       | Some script_path \<Rightarrow>
                           then_do (log h ''Running PowerShell ISO creation...'' [] None)
                             (and_then (do_popen h (NewIsoFile script_path src out label
                                                      boot_args))
                                (powershell_monitor h src out label)))"
    using start by (cases assigned) (simp_all add: Let_def)
qed

lemma gated_create_iso_with_powershell: "gated (create_iso_with_powershell h src out label)"
  unfolding create_iso_with_powershell_def
  by (intro gated_catch gated_create_iso_with_powershell_try gated_failure)
    (simp_all add: is_scripted_failure_def emits_create_basic_iso)

lemma gated_create_iso: "gated (create_iso h src out label)"
  unfolding create_iso_def
proof (intro gated_catch gated_then_do gated_and_then)
  show "gated (log h ''Creating ISO from {source_dir} to {output_iso}'' [S src, S out] None)"
    by (rule gated_emits) (auto intro!: emits_intros simp add: is_zip_open_def)
  show "gated (find_oscdimg h)"
    by (rule gated_emits) (auto intro!: emits_intros simp add: is_zip_open_def)
  show "gated (log h ''Error creating ISO: {e}'' [E e] (Some 0))" for e
    by (rule gated_emits) (auto intro!: emits_intros simp add: is_zip_open_def)
  show "gated (ret False)"
    by (rule gated_ret)
next
  fix v :: "string option"
  have native: "gated (create_iso_with_oscdimg h p src out label)" for p
    by (rule gated_emits) (auto intro!: emits_intros simp add: is_zip_open_def)
  show "gated (case v of
                 None \<Rightarrow> create_iso_with_powershell h src out label
               | Some path \<Rightarrow>
                   if path = [] then create_iso_with_powershell h src out label
                   else create_iso_with_oscdimg h path src out label)"
    by (cases v) (simp_all add: gated_create_iso_with_powershell native)
qed

subsection \<open>Counting events\<close>

lemma unmounts_emits:
  assumes "emits (\<lambda>e. \<not> is_unmount e) m"
  shows "unmounts (snd (m s)) = unmounts s"
proof -
  obtain es where "events (snd (m s)) = events s @ es" "list_all (\<lambda>e. \<not> is_unmount e) es"
    using emitsD[OF assms, of s] by blast
  then show ?thesis
    by (simp add: unmounts_def list_all_iff)
qed

lemma copies_emits:
  assumes "emits (\<lambda>e. \<not> is_copy e) m"
  shows "copies (snd (m s)) = copies s"
proof -
  obtain es where "events (snd (m s)) = events s @ es" "list_all (\<lambda>e. \<not> is_copy e) es"
    using emitsD[OF assms, of s] by blast
  then show ?thesis
    by (simp add: copies_def list_all_iff)
qed

subsection \<open>Steps that do not read the stop flag\<close>

named_theorems steady_intros

lemma steadyD: "steady m \<Longrightarrow> polls (snd (m s)) = polls s"
  by (simp add: steady_def)

lemma steady_ret [steady_intros]: "steady (ret v)"
  by (simp add: steady_def ret_def)

lemma steady_raise [steady_intros]: "steady (raise e)"
  by (simp add: steady_def raise_def)

lemma steady_snapshot [steady_intros]: "steady snapshot"
  by (simp add: steady_def snapshot_def)

lemma steady_path_exists [steady_intros]: "steady (path_exists p)"
  by (simp add: steady_def path_exists_def)

lemma steady_set_fs [steady_intros]: "steady (set_fs p b)"
  by (simp add: steady_def set_fs_def)

lemma steady_do_walk [steady_intros]: "steady (do_walk h p)"
  by (simp add: steady_def do_walk_def)

lemma steady_issue [steady_intros]: "steady (issue e out)"
  by (simp add: steady_def issue_def emit_def)

lemma steady_log [steady_intros]: "steady (log h m as p)"
  by (simp add: steady_def log_def issue_def emit_def)

lemma steady_run_proc [steady_intros]: "steady (run_proc h c)"
  by (simp add: steady_def run_proc_def emit_def)

lemma steady_do_popen [steady_intros]: "steady (do_popen h c)"
  by (simp add: steady_def do_popen_def emit_def)

lemma steady_handle [steady_intros]:
  assumes "steady m" and "\<And>v. steady (on_ok v)" and "\<And>e. steady (on_err e)"
  shows "steady (handle m on_ok on_err)"
  unfolding steady_def
proof
  fix s
  obtain r s1 where m: "m s = (r, s1)" by (cases "m s")
  have 1: "polls s1 = polls s" using steadyD[OF assms(1), of s] m by simp
  show "polls (snd (handle m on_ok on_err s)) = polls s"
    using m 1 steadyD[OF assms(2)] steadyD[OF assms(3)]
    by (cases r) (simp_all add: handle_def)
qed

lemma steady_handle_subprocess [steady_intros]:
  assumes "steady m" and "\<And>v. steady (on_ok v)" and "\<And>e. steady (on_err e)"
  shows "steady (handle_subprocess m on_ok on_err)"
  unfolding steady_def
proof
  fix s
  obtain r s1 where m: "m s = (r, s1)" by (cases "m s")
  have 1: "polls s1 = polls s" using steadyD[OF assms(1), of s] m by simp
  show "polls (snd (handle_subprocess m on_ok on_err s)) = polls s"
    using m 1 steadyD[OF assms(2)] steadyD[OF assms(3)]
    by (cases r) (simp_all add: handle_subprocess_def)
qed

lemma steady_and_then [steady_intros]:
  assumes "steady m" and "\<And>v. steady (k v)"
  shows "steady (and_then m k)"
  unfolding steady_def
proof
  fix s
  obtain r s1 where m: "m s = (r, s1)" by (cases "m s")
  have 1: "polls s1 = polls s" using steadyD[OF assms(1), of s] m by simp
  show "polls (snd (and_then m k s)) = polls s"
    using m 1 steadyD[OF assms(2)]
    by (cases r) (simp_all add: and_then_def)
qed

lemma steady_then_do [steady_intros]: "steady m \<Longrightarrow> steady k \<Longrightarrow> steady (then_do m k)"
  by (simp add: then_do_def steady_and_then)

lemma steady_catch [steady_intros]:
  "steady m \<Longrightarrow> (\<And>e. steady (handler e)) \<Longrightarrow> steady (catch m handler)"
  by (simp add: catch_def steady_handle steady_ret)

lemma steady_catch_all [steady_intros]:
  assumes "steady m" and "steady handler"
  shows "steady (catch_all m handler)"
  unfolding steady_def
proof
  fix s
  obtain r s1 where m: "m s = (r, s1)" by (cases "m s")
  have 1: "polls s1 = polls s" using steadyD[OF assms(1), of s] m by simp
  show "polls (snd (catch_all m handler s)) = polls s"
    using m 1 steadyD[OF assms(2)]
    by (cases r) (simp_all add: catch_all_def)
qed

lemma steady_ensure [steady_intros]:
  assumes "steady m" and "steady f"
  shows "steady (ensure m f)"
  unfolding steady_def
proof
  fix s
  obtain r s1 where m: "m s = (r, s1)" by (cases "m s")
  have 1: "polls s1 = polls s" using steadyD[OF assms(1), of s] m by simp
  obtain u s2 where f: "f s1 = (u, s2)" by (cases "f s1")
  have 2: "polls s2 = polls s1" using steadyD[OF assms(2), of s1] f by simp
  show "polls (snd (ensure m f s)) = polls s"
    using m f 1 2 by (cases u) (simp_all add: ensure_def)
qed

lemma steady_do_makedirs [steady_intros]: "steady (do_makedirs h p)"
  by (simp add: do_makedirs_def steady_intros)

lemma steady_run_checked [steady_intros]: "steady (run_checked h c)"
  by (auto simp add: run_checked_def intro!: steady_intros)

lemma steady_do_unlink [steady_intros]: "steady (do_unlink h p)"
  by (simp add: do_unlink_def steady_intros)

lemma steady_do_write [steady_intros]: "steady (do_write h p)"
  by (simp add: do_write_def steady_intros)

lemma steady_gui_call [steady_intros]: "steady (gui_call h e)"
  by (simp add: gui_call_def steady_intros)

lemma steady_sevenzip_line [steady_intros]: "steady (sevenzip_line h l)"
  by (auto simp add: sevenzip_line_def intro!: steady_intros split: option.split)

lemma steady_copy_step [steady_intros]: "steady (copy_step h src dst n c)"
  by (auto simp add: copy_step_def Let_def intro!: steady_intros)

lemma steady_unmount_finally [steady_intros]: "steady (unmount_finally h img dl)"
  by (auto simp add: unmount_finally_def intro!: steady_intros split: option.split)

subsection \<open>The archiver strategy\<close>

lemma emits_sevenzip_monitor [emits_intros]:
  "(\<And>m as p. P (Log m as p)) \<Longrightarrow> P Terminate \<Longrightarrow> P Wait \<Longrightarrow> emits P (sevenzip_monitor h pr)"
  by (auto simp add: sevenzip_monitor_def intro!: emits_intros split: option.split)

lemma sevenzip_monitor_True:
  assumes "fst (sevenzip_monitor h pr s) = Inr True"
  shows "returncode pr = 0"
proof (rule ccontr)
  assume rc: "returncode pr \<noteq> 0"
  obtain r s1 where r: "read_stdout h pr (sevenzip_line h) (stdout_lines pr) s = (r, s1)"
    by (cases "read_stdout h pr (sevenzip_line h) (stdout_lines pr) s")
  have "r \<noteq> Inr (Some True)"
    using read_stdout_result[of h pr "sevenzip_line h" "stdout_lines pr" s] r by simp
  then have "fst (sevenzip_monitor h pr s) \<noteq> Inr True"
    using r rc
    by (auto simp add: sevenzip_monitor_def and_then_def then_do_def issue_def ret_def log_def
        split: sum.split option.split)
  then show False using assms by simp
qed

lemma extract_with_7zip_try_True:
  assumes "fst (extract_with_7zip_try h z img dir s) = Inr True"
  shows "makedirs h dir = None \<and>
         (\<exists>pr. popen h (Argv (sevenzip_cmd z img dir)) = Inr pr \<and> returncode pr = 0)"
  using assms
  by (auto simp add: extract_with_7zip_try_def then_do_def and_then_def log_def issue_def
      do_makedirs_def set_fs_def do_popen_def
      split: option.splits sum.splits dest: sevenzip_monitor_True)

lemma handler_not_True: "fst (then_do (log h m as p) (ret False) s) \<noteq> Inr True"
  by (simp add: then_do_def and_then_def log_def issue_def ret_def split: option.split)

lemma catch_True:
  assumes "\<And>e x. fst (handler e x) \<noteq> Inr True" and "fst (catch m handler s) = Inr True"
  shows "fst (m s) = Inr True"
proof (cases "m s")
  case (Pair r s1)
  then show ?thesis
    using assms by (cases r) (auto simp add: catch_def handle_def ret_def split: if_splits)
qed

lemma ensure_True:
  assumes "fst (ensure m f s) = Inr True"
  shows "fst (m s) = Inr True"
proof (cases "m s")
  case (Pair r s1)
  then show ?thesis
    using assms by (cases "f s1") (auto simp add: ensure_def split: sum.splits)
qed

lemma catch_handled:
  assumes "cb_quiet h" and "m s = (Inl e, s1)" and "is_exception e"
  shows "catch m (\<lambda>e. then_do (log h msg [E e] p) (ret False)) s =
           (Inr False, emit (Log msg [E e] p) (s1\<lparr>logs := Suc (logs s1)\<rparr>))"
  using assms
  by (simp add: catch_def handle_def then_do_def and_then_def log_quiet ret_def)

lemma contained_extract_with_7zip:
  "cb_quiet h \<Longrightarrow> contained (fst (extract_with_7zip h z img dir s))"
  unfolding extract_with_7zip_def
  by (rule contained_catch) (simp add: handler_contained)

lemma sevenzip_line_quiet:
  assumes "cb_quiet h"
  shows "\<exists>x'. sevenzip_line h l x = (Inr (), x') \<and> polls x' = polls x"
  using assms
  by (auto simp add: sevenzip_line_def catch_all_def log_quiet raise_def ret_def emit_def
      split: option.split)

lemma read_stdout_stops:
  assumes line: "\<And>l x. \<exists>x'. on_line l x = (Inr (), x') \<and> polls x' = polls x"
    and "k < length ls"
    and "stop_requested h (polls s + k)"
    and "\<forall>j<k. \<not> stop_requested h (polls s + j)"
  shows "fst (read_stdout h p on_line ls s) =
           (case terminate_error p of None \<Rightarrow> Inr (Some False) | Some e \<Rightarrow> Inl e) \<and>
         polls (snd (read_stdout h p on_line ls s)) = polls s + k + 1 \<and>
         last (events (snd (read_stdout h p on_line ls s))) = Terminate"
  using assms(2-4)
proof (induction ls arbitrary: s k)
  case Nil
  then show ?case by simp
next
  case (Cons l ls)
  show ?case
  proof (cases k)
    case 0
    then have "stop_requested h (polls s)" using Cons.prems(2) by simp
    then show ?thesis
      using 0
      by (simp add: and_then_def then_do_def poll_def issue_def ret_def emit_def
          split: option.split)
  next
    case (Suc k')
    have clear: "\<not> stop_requested h (polls s)"
      using Cons.prems(3) Suc by (metis add.right_neutral zero_less_Suc)
    let ?s1 = "s\<lparr>polls := Suc (polls s)\<rparr>"
    obtain s2 where s2: "on_line l ?s1 = (Inr (), s2)" "polls s2 = polls ?s1"
      using line[of l ?s1] by blast
    have 1: "k' < length ls" using Cons.prems(1) Suc by simp
    have 2: "stop_requested h (polls s2 + k')" using Cons.prems(2) Suc s2(2) by simp
    have 3: "\<forall>j<k'. \<not> stop_requested h (polls s2 + j)"
    proof (intro allI impI)
      fix j assume "j < k'"
      then have "Suc j < k" using Suc by simp
      then have "\<not> stop_requested h (polls s + Suc j)" using Cons.prems(3) by blast
      then show "\<not> stop_requested h (polls s2 + j)" using s2(2) by simp
    qed
    have "read_stdout h p on_line (l # ls) s = read_stdout h p on_line ls s2"
      using clear s2(1) by (simp add: and_then_def then_do_def poll_def)
    then show ?thesis
      using Cons.IH[OF 1 2 3] s2(2) Suc by simp
  qed
qed

lemma extract_with_7zip_stops:
  assumes "cb_quiet h" and "makedirs h dir = None"
    and "popen h (Argv (sevenzip_cmd z img dir)) = Inr pr"
    and "k < length (stdout_lines pr)"
    and "stop_requested h (polls s + k)"
    and "\<forall>j<k. \<not> stop_requested h (polls s + j)"
  shows "fails (fst (extract_with_7zip h z img dir s)) \<and>
         polls (snd (extract_with_7zip h z img dir s)) = polls s + k + 1 \<and>
         (terminate_error pr = None \<longrightarrow>
            fst (extract_with_7zip h z img dir s) = Inr False \<and>
            last (events (snd (extract_with_7zip h z img dir s))) = Terminate)"
proof -
  let ?s3 = "emit (Popen (Argv (sevenzip_cmd z img dir)))
               (snd (set_fs dir True
                  (emit (Makedirs dir)
                     (emit (Log ''Extracting ISO with 7-Zip...'' [] None)
                        (s\<lparr>logs := Suc (logs s)\<rparr>)))))"
  let ?loop = "read_stdout h pr (sevenzip_line h) (stdout_lines pr) ?s3"
  have p3: "polls ?s3 = polls s" by (simp add: emit_def set_fs_def)
  have loop: "fst ?loop = (case terminate_error pr of None \<Rightarrow> Inr (Some False) | Some e \<Rightarrow> Inl e)"
      "polls (snd ?loop) = polls s + k + 1" "last (events (snd ?loop)) = Terminate"
    using read_stdout_stops[of "sevenzip_line h" k "stdout_lines pr" h ?s3 pr]
      sevenzip_line_quiet[OF assms(1)] assms(4-6) p3
    by simp_all
  have tried: "extract_with_7zip_try h z img dir s = and_then (\<lambda>x. ?loop) (\<lambda>r.
       case r of
         Some b \<Rightarrow> ret b
       | None \<Rightarrow>
           then_do (issue Wait None)
             (if returncode pr = 0
              then then_do (log h ''ISO extraction completed successfully'' [] None) (ret True)
              else then_do (log h ''7-Zip extraction failed: {error}''
                              [S (stderr_text pr)] (Some 0))
                     (ret False))) s"
    using assms(1-3)
    by (simp add: extract_with_7zip_try_def sevenzip_monitor_def then_do_def and_then_def
        log_quiet do_makedirs_def issue_def do_popen_def set_fs_def)
  show ?thesis
  proof (cases "terminate_error pr")
    case None
    then have "extract_with_7zip_try h z img dir s = (Inr False, snd ?loop)"
      using tried loop(1) by (cases ?loop) (simp add: and_then_def ret_def)
    then have "extract_with_7zip h z img dir s = (Inr False, snd ?loop)"
      by (simp add: extract_with_7zip_def catch_def handle_def ret_def)
    then show ?thesis
      using loop None by (simp add: fails_def)
  next
    case (Some e)
    then have t: "extract_with_7zip_try h z img dir s = (Inl e, snd ?loop)"
      using tried loop(1) by (cases ?loop) (simp add: and_then_def)
    show ?thesis
    proof (cases "is_exception e")
      case True
      then show ?thesis
        using t loop(2) Some assms(1)
        by (simp add: extract_with_7zip_def catch_def handle_def then_do_def and_then_def
            log_quiet ret_def emit_def fails_def)
    next
      case False
      then show ?thesis
        using t loop(2) Some
        by (simp add: extract_with_7zip_def catch_def handle_def fails_def)
    qed
  qed
qed

subsection \<open>The mount-and-copy strategy\<close>

lemma emits_handle_subprocess [emits_intros]:
  assumes "emits P m" and "\<And>v. emits P (on_ok v)" and "\<And>e. emits P (on_err e)"
  shows "emits P (handle_subprocess m on_ok on_err)"
  unfolding emits_def
proof
  fix s
  obtain r s1 where m: "m s = (r, s1)" by (cases "m s")
  obtain es1 where es1: "events s1 = events s @ es1" "list_all P es1"
    using emitsD[OF assms(1), of s] m by auto
  show "\<exists>es. events (snd (handle_subprocess m on_ok on_err s)) = events s @ es \<and> list_all P es"
  proof (cases r)
    case (Inl e)
    obtain es2 where "events (snd (on_err e s1)) = events s1 @ es2" "list_all P es2"
      using emitsD[OF assms(3), of e s1] by auto
    then show ?thesis
      using m es1 Inl by (cases "e = SubprocessError") (auto simp add: handle_subprocess_def)
  next
    case (Inr v)
    obtain es2 where "events (snd (on_ok v s1)) = events s1 @ es2" "list_all P es2"
      using emitsD[OF assms(2), of v s1] by auto
    then show ?thesis using m es1 Inr by (simp add: handle_subprocess_def)
  qed
qed

lemma emits_copy_step [emits_intros]:
  assumes "\<And>a b. P (Copy2 a b)" and "\<And>m as p. P (Log m as p)"
  shows "emits P (copy_step h src dst n c)"
  using assms by (auto simp add: copy_step_def Let_def intro!: emits_intros)

lemma emits_copy_files [emits_intros]:
  assumes "\<And>a b. P (Copy2 a b)" and "\<And>m as p. P (Log m as p)"
  shows "emits P (copy_files h root tdir n files c)"
  using assms by (induction files arbitrary: c) (auto intro!: emits_intros)

lemma emits_copy_tree [emits_intros]:
  assumes "\<And>a b. P (Copy2 a b)" and "\<And>m as p. P (Log m as p)" and "\<And>d. P (Makedirs d)"
  shows "emits P (copy_tree h sp dir n tree c)"
  using assms
proof (induction tree arbitrary: c)
  case Nil
  show ?case by (simp add: emits_intros)
next
  case (Cons a tree)
  obtain root dirs files where a: "a = (root, dirs, files)" by (cases a)
  show ?case
    unfolding a
    using Cons
    by (auto simp add: Let_def intro!: emits_intros split: option.split)
qed

lemma emits_copy_from_drive [emits_intros]:
  assumes "\<And>a b. P (Copy2 a b)" and "\<And>m as p. P (Log m as p)" and "\<And>d. P (Makedirs d)"
  shows "emits P (copy_from_drive h d dir)"
  using assms
  by (auto simp add: copy_from_drive_def Let_def intro!: emits_intros split: option.split)

lemma copies_copy_step: "copies (snd (copy_step h src dst n c s)) = copies s + 1"
  by (simp add: copy_step_def Let_def handle_def catch_def then_do_def and_then_def issue_def
      log_def set_fs_def ret_def emit_def copies_def is_copy_def split: option.split)

lemma polls_copy_step: "polls (snd (copy_step h src dst n c s)) = polls s"
  by (rule steadyD) (rule steady_copy_step)

lemma copy_files_bounds:
  "polls (snd (copy_files h root tdir n files c s)) \<le> polls s + length files \<and>
   copies (snd (copy_files h root tdir n files c s)) \<le> copies s + length files \<and>
   fst (copy_files h root tdir n files c s) \<noteq> Inr (Some True, m) \<and>
   (fst (copy_files h root tdir n files c s) = Inr (None, m) \<longrightarrow>
      polls (snd (copy_files h root tdir n files c s)) = polls s + length files)"
proof (induction files arbitrary: c s)
  case Nil
  show ?case by (simp add: ret_def)
next
  case (Cons f files)
  let ?s1 = "s\<lparr>polls := Suc (polls s)\<rparr>"
  show ?case
  proof (cases "stop_requested h (polls s)")
    case True
    then show ?thesis by (simp add: and_then_def poll_def ret_def copies_def)
  next
    case False
    obtain r s2 where step:
      "copy_step h (path_join h [root, f]) (path_join h [tdir, f]) n c ?s1 = (r, s2)"
      by (cases "copy_step h (path_join h [root, f]) (path_join h [tdir, f]) n c ?s1")
    have p2: "polls s2 = Suc (polls s)"
      using polls_copy_step[of h "path_join h [root, f]" "path_join h [tdir, f]" n c ?s1] step
      by simp
    have c2: "copies s2 = copies s + 1"
      using copies_copy_step[of h "path_join h [root, f]" "path_join h [tdir, f]" n c ?s1] step
      by (simp add: copies_def)
    show ?thesis
    proof (cases r)
      case (Inl e)
      then have "copy_files h root tdir n (f # files) c s = (Inl e, s2)"
        using False step by (simp add: and_then_def poll_def)
      then show ?thesis using p2 c2 by simp
    next
      case (Inr c')
      then have "copy_files h root tdir n (f # files) c s = copy_files h root tdir n files c' s2"
        using False step by (simp add: and_then_def poll_def)
      then show ?thesis using Cons.IH[of c' s2] p2 c2 by simp
    qed
  qed
qed

lemma copy_files_stop:
  assumes "k < length files" and "stop_requested h (polls s + k)"
  shows "fst (copy_files h root tdir n files c s) \<noteq> Inr (None, m) \<and>
         polls (snd (copy_files h root tdir n files c s)) \<le> polls s + k + 1 \<and>
         copies (snd (copy_files h root tdir n files c s)) \<le> copies s + k"
  using assms
proof (induction files arbitrary: c s k)
  case Nil
  then show ?case by simp
next
  case (Cons f files)
  let ?s1 = "s\<lparr>polls := Suc (polls s)\<rparr>"
  show ?case
  proof (cases "stop_requested h (polls s)")
    case True
    then show ?thesis by (simp add: and_then_def poll_def ret_def copies_def)
  next
    case False
    then obtain k' where k: "k = Suc k'"
      using Cons.prems(2) by (cases k) auto
    obtain r s2 where step:
      "copy_step h (path_join h [root, f]) (path_join h [tdir, f]) n c ?s1 = (r, s2)"
      by (cases "copy_step h (path_join h [root, f]) (path_join h [tdir, f]) n c ?s1")
    have p2: "polls s2 = Suc (polls s)"
      using polls_copy_step[of h "path_join h [root, f]" "path_join h [tdir, f]" n c ?s1] step
      by simp
    have c2: "copies s2 = copies s + 1"
      using copies_copy_step[of h "path_join h [root, f]" "path_join h [tdir, f]" n c ?s1] step
      by (simp add: copies_def)
    show ?thesis
    proof (cases r)
      case (Inl e)
      then have "copy_files h root tdir n (f # files) c s = (Inl e, s2)"
        using False step by (simp add: and_then_def poll_def)
      then show ?thesis using p2 c2 k by simp
    next
      case (Inr c')
      have 1: "k' < length files" using Cons.prems(1) k by simp
      have 2: "stop_requested h (polls s2 + k')" using Cons.prems(2) k p2 by simp
      have "copy_files h root tdir n (f # files) c s = copy_files h root tdir n files c' s2"
        using Inr False step by (simp add: and_then_def poll_def)
      then show ?thesis using Cons.IH[OF 1 2, of c'] p2 c2 k by simp
    qed
  qed
qed

lemma tree_polls_Cons [simp]:
  "tree_polls ((root, dirs, files) # tree) = Suc (length files + tree_polls tree)"
  by (simp add: tree_polls_def)

lemma tree_polls_Nil [simp]: "tree_polls [] = 0"
  by (simp add: tree_polls_def)

lemma copy_tree_not_True: "fst (copy_tree h sp dir n tree c s) \<noteq> Inr (Some True)"
proof (induction tree arbitrary: c s)
  case Nil
  show ?case by (simp add: ret_def)
next
  case (Cons a tree)
  obtain root dirs files where a: "a = (root, dirs, files)" by (cases a)
  let ?s1 = "s\<lparr>polls := Suc (polls s)\<rparr>"
  let ?tdir = "if relpath h root sp \<noteq> ''.'' then path_join h [dir, relpath h root sp] else dir"
  show ?case
  proof (cases "stop_requested h (polls s)")
    case True
    then show ?thesis unfolding a by (simp add: and_then_def poll_def ret_def)
  next
    case False
    show ?thesis
    proof (cases "makedirs h ?tdir")
      case (Some e)
      then show ?thesis
        unfolding a using False
        by (simp add: and_then_def then_do_def poll_def do_makedirs_def issue_def Let_def)
    next
      case None
      let ?s2 = "snd (do_makedirs h ?tdir ?s1)"
      obtain r s3 where files: "copy_files h root ?tdir n files c ?s2 = (r, s3)"
        by (cases "copy_files h root ?tdir n files c ?s2")
      have rest: "copy_tree h sp dir n (a # tree) c s =
          and_then (\<lambda>x. (r, s3))
            (\<lambda>(r, copied). case r of Some b \<Rightarrow> ret (Some b)
                                    | None \<Rightarrow> copy_tree h sp dir n tree copied) s"
        unfolding a using False None files
        by (simp add: and_then_def then_do_def poll_def do_makedirs_def issue_def set_fs_def
            Let_def)
      show ?thesis
      proof (cases r)
        case (Inl e)
        then show ?thesis using rest by (simp add: and_then_def)
      next
        case (Inr v)
        obtain b m where v: "v = (b, m)" by (cases v)
        have "b \<noteq> Some True"
          using copy_files_bounds[of h root ?tdir n files c ?s2 m] files Inr v by auto
        then show ?thesis
          using rest Inr v Cons.IH[of m s3]
          by (cases b) (auto simp add: and_then_def ret_def)
      qed
    qed
  qed
qed

lemma copy_tree_stop:
  assumes "k < tree_polls tree" and "stop_requested h (polls s + k)"
  shows "fst (copy_tree h sp dir n tree c s) \<noteq> Inr None \<and>
         polls (snd (copy_tree h sp dir n tree c s)) \<le> polls s + k + 1 \<and>
         copies (snd (copy_tree h sp dir n tree c s)) \<le> copies s + k"
  using assms
proof (induction tree arbitrary: c s k)
  case Nil
  then show ?case by simp
next
  case (Cons a tree)
  obtain root dirs files where a: "a = (root, dirs, files)" by (cases a)
  let ?s1 = "s\<lparr>polls := Suc (polls s)\<rparr>"
  let ?tdir = "if relpath h root sp \<noteq> ''.'' then path_join h [dir, relpath h root sp] else dir"
  show ?case
  proof (cases "stop_requested h (polls s)")
    case True
    then show ?thesis unfolding a by (simp add: and_then_def poll_def ret_def copies_def)
  next
    case False
    then obtain k' where k: "k = Suc k'"
      using Cons.prems(2) by (cases k) auto
    show ?thesis
    proof (cases "makedirs h ?tdir")
      case (Some e)
      then show ?thesis
        unfolding a using False
        by (simp add: and_then_def then_do_def poll_def do_makedirs_def issue_def Let_def
            emit_def copies_def is_copy_def)
    next
      case None
      let ?s2 = "snd (do_makedirs h ?tdir ?s1)"
      have p2: "polls ?s2 = Suc (polls s)"
        by (simp add: do_makedirs_def then_do_def and_then_def issue_def set_fs_def emit_def
            split: option.split)
      have c2: "copies ?s2 = copies s"
        by (simp add: do_makedirs_def then_do_def and_then_def issue_def set_fs_def emit_def
            copies_def is_copy_def split: option.split)
      obtain r s3 where files: "copy_files h root ?tdir n files c ?s2 = (r, s3)"
        by (cases "copy_files h root ?tdir n files c ?s2")
      have rest: "copy_tree h sp dir n (a # tree) c s =
          and_then (\<lambda>x. (r, s3))
            (\<lambda>(r, copied). case r of Some b \<Rightarrow> ret (Some b)
                                    | None \<Rightarrow> copy_tree h sp dir n tree copied) s"
        unfolding a using False None files
        by (simp add: and_then_def then_do_def poll_def do_makedirs_def issue_def set_fs_def
            Let_def)
      show ?thesis
      proof (cases "k' < length files")
        case True
        have stop: "stop_requested h (polls ?s2 + k')"
          using Cons.prems(2) k p2 by simp
        have inner: "\<And>m. r \<noteq> Inr (None, m)" "polls s3 \<le> polls ?s2 + k' + 1"
            "copies s3 \<le> copies ?s2 + k'"
          using copy_files_stop[OF True stop, of root ?tdir n c] files by simp_all
        show ?thesis
        proof (cases r)
          case (Inl e)
          then show ?thesis using rest inner p2 c2 k by (simp add: and_then_def)
        next
          case (Inr v)
          obtain b m where v: "v = (b, m)" by (cases v)
          then obtain b' where "b = Some b'" using inner(1)[of m] Inr by (cases b) auto
          then show ?thesis
            using rest Inr v inner p2 c2 k by (simp add: and_then_def ret_def)
        qed
      next
        case False
        note long = False
        have bounds: "polls s3 \<le> polls ?s2 + length files" "copies s3 \<le> copies ?s2 + length files"
            "\<And>m. r = Inr (None, m) \<Longrightarrow> polls s3 = polls ?s2 + length files"
          using copy_files_bounds[of h root ?tdir n files c ?s2] files by simp_all
        show ?thesis
        proof (cases r)
          case (Inl e)
          then show ?thesis using rest bounds p2 c2 k long by (simp add: and_then_def)
        next
          case (Inr v)
          obtain b m where v: "v = (b, m)" by (cases v)
          show ?thesis
          proof (cases b)
            case (Some b')
            then show ?thesis
              using rest Inr v bounds p2 c2 k long by (simp add: and_then_def ret_def)
          next
            case None
            have p3: "polls s3 = Suc (polls s) + length files"
              using bounds(3)[of m] Inr v None p2 by simp
            have 1: "k' - length files < tree_polls tree"
              using Cons.prems(1) k long unfolding a by simp
            have 2: "stop_requested h (polls s3 + (k' - length files))"
              using Cons.prems(2) k long p3 by simp
            have "copy_tree h sp dir n (a # tree) c s = copy_tree h sp dir n tree m s3"
              using rest Inr v None by (simp add: and_then_def)
            then show ?thesis
              using Cons.IH[OF 1 2, of m] p3 bounds(2) c2 k long by simp arith
          qed
        qed
      qed
    qed
  qed
qed

lemma copy_from_drive_True:
  assumes "fst (copy_from_drive h d dir s) = Inr True"
  shows "d \<noteq> [] \<and> (\<exists>tree. walk h (d @ '':'' @ sep) = Inr tree)"
  using assms
  by (auto simp add: copy_from_drive_def handle_subprocess_def raise_def log_def issue_def
      then_do_def and_then_def ret_def do_walk_def Let_def
      split: if_splits option.splits sum.splits)

lemma copy_from_drive_True_at:
  "copy_from_drive h d dir s = (Inr True, s') \<Longrightarrow>
     d \<noteq> [] \<and> (\<exists>tree. walk h (d @ '':'' @ sep) = Inr tree)"
  using copy_from_drive_True[of h d dir s] by simp

lemma extract_with_windows_mount_try_True:
  assumes "fst (fst (extract_with_windows_mount_try h img dir s)) = Inr True"
  shows "makedirs h dir = None \<and>
         (\<exists>out. run h (MountDiskImage img) = Inr (0, out) \<and> strip out \<noteq> [] \<and>
                (\<exists>tree. walk h (strip out @ '':'' @ sep) = Inr tree))"
  using assms
  by (auto simp add: extract_with_windows_mount_try_def then_do_def and_then_def log_def
      issue_def do_makedirs_def set_fs_def run_checked_def run_proc_def raise_def ret_def
      split: option.splits sum.splits if_splits prod.splits dest!: copy_from_drive_True_at)

lemma extract_with_windows_mount_True:
  assumes "fst (extract_with_windows_mount h img dir s) = Inr True"
  shows "fst (fst (extract_with_windows_mount_try h img dir s)) = Inr True"
proof -
  obtain r dl s1 where t: "extract_with_windows_mount_try h img dir s = ((r, dl), s1)"
    by (metis surj_pair)
  have "fst (catch (\<lambda>x. (r, x))
               (\<lambda>e. then_do (log h ''Error extracting with Windows mount: {e}'' [E e] (Some 0))
                      (ret False)) s1) = Inr True"
    using assms t by (auto simp add: extract_with_windows_mount_def dest: ensure_True)
  then have "fst (r, s1) = Inr True"
    by (rule catch_True[rotated]) (rule handler_not_True)
  then show ?thesis using t by simp
qed

lemma contained_log: "cb_quiet h \<Longrightarrow> contained (fst (log h m as p s))"
  by (simp add: log_quiet contained_def)

lemma contained_unmount_finally:
  "cb_quiet h \<Longrightarrow> contained (fst (unmount_finally h img dl s))"
proof (cases dl)
  case None
  then show ?thesis by (simp add: unmount_finally_def ret_def contained_def)
next
  case (Some d)
  assume q: "cb_quiet h"
  show ?thesis
  proof (cases "d = []")
    case True
    then show ?thesis using Some by (simp add: unmount_finally_def ret_def contained_def)
  next
    case False
    then show ?thesis
      using Some q
      by (simp add: unmount_finally_def contained_catch contained_log)
  qed
qed

lemma contained_extract_with_windows_mount:
  assumes "cb_quiet h"
  shows "contained (fst (extract_with_windows_mount h img dir s))"
proof -
  obtain r dl s1 where t: "extract_with_windows_mount_try h img dir s = ((r, dl), s1)"
    by (metis surj_pair)
  show ?thesis
    unfolding extract_with_windows_mount_def t
    by (simp, rule contained_ensure, rule contained_catch)
      (simp_all add: handler_contained[OF assms] contained_unmount_finally[OF assms])
qed

lemma unmount_finally_once:
  assumes "cb_quiet h" and "d \<noteq> []"
  shows "unmounts (snd (unmount_finally h img (Some d) s)) = unmounts s + 1"
  using assms
  by (simp add: unmount_finally_def catch_def handle_def then_do_def and_then_def log_quiet
      run_checked_def run_proc_def emit_def unmounts_def is_unmount_def ret_def raise_def
      split: sum.split prod.split)

lemma emits_unmount_finally [emits_intros]:
  assumes "\<And>m as p. P (Log m as p)" and "\<And>c. P (Run c)"
  shows "emits P (unmount_finally h img dl)"
  using assms
  by (auto simp add: unmount_finally_def intro!: emits_intros split: option.split)

lemma ensure_snd: "snd (ensure m f s) = snd (f (snd (m s)))"
proof (cases "m s")
  case (Pair r s1)
  then show ?thesis
    by (cases "f s1") (auto simp add: ensure_def split: sum.splits)
qed

lemma polls_catch:
  assumes "\<And>e. steady (handler e)"
  shows "polls (snd (catch m handler s)) = polls (snd (m s))"
proof (cases "m s")
  case (Pair r s1)
  then show ?thesis
    using steadyD[OF assms]
    by (cases r) (simp_all add: catch_def handle_def ret_def)
qed

lemma mounted_run:
  assumes "cb_quiet h" and "makedirs h dir = None"
    and "run h (MountDiskImage img) = Inr (0, out)"
  shows "\<exists>s0. polls s0 = polls s \<and> copies s0 = copies s \<and> unmounts s0 = unmounts s \<and>
           extract_with_windows_mount h img dir s =
             ensure
               (catch (copy_from_drive h (strip out) dir)
                  (\<lambda>e. then_do (log h ''Error extracting with Windows mount: {e}'' [E e]
                                  (Some 0))
                         (ret False)))
               (unmount_finally h img (Some (strip out))) s0"
proof -
  let ?s0 = "emit (Run (MountDiskImage img))
               (snd (set_fs dir True
                  (emit (Makedirs dir)
                     (emit (Log ''Mounting ISO using Windows built-in functionality...''
                              [] None)
                        (s\<lparr>logs := Suc (logs s)\<rparr>)))))"
  have a: "polls ?s0 = polls s" by (simp add: emit_def set_fs_def)
  have b: "copies ?s0 = copies s" by (simp add: emit_def set_fs_def copies_def is_copy_def)
  have c: "unmounts ?s0 = unmounts s"
    by (simp add: emit_def set_fs_def unmounts_def is_unmount_def)
  obtain r s1 where cfd: "copy_from_drive h (strip out) dir ?s0 = (r, s1)"
    by (cases "copy_from_drive h (strip out) dir ?s0")
  have t: "extract_with_windows_mount_try h img dir s = ((r, Some (strip out)), s1)"
    using assms cfd
    by (simp add: extract_with_windows_mount_try_def then_do_def and_then_def log_quiet
        do_makedirs_def issue_def set_fs_def run_checked_def run_proc_def ret_def)
  have d: "extract_with_windows_mount h img dir s =
             ensure
               (catch (copy_from_drive h (strip out) dir)
                  (\<lambda>e. then_do (log h ''Error extracting with Windows mount: {e}'' [E e]
                                  (Some 0))
                         (ret False)))
               (unmount_finally h img (Some (strip out))) ?s0"
    using cfd
    by (simp add: extract_with_windows_mount_def t ensure_def catch_def handle_def)
  show ?thesis
    using a b c d by blast
qed

lemma mount_released:
  assumes "cb_quiet h" and "makedirs h dir = None"
    and "run h (MountDiskImage img) = Inr (0, out)" and "strip out \<noteq> []"
  shows "unmounts (snd (extract_with_windows_mount h img dir s)) = unmounts s + 1"
proof -
  let ?P = "\<lambda>e. \<not> is_unmount e"
  let ?H = "\<lambda>e. then_do (log h ''Error extracting with Windows mount: {e}'' [E e] (Some 0))
                  (ret False)"
  let ?C = "catch (copy_from_drive h (strip out) dir) ?H"
  obtain s0 where s0: "unmounts s0 = unmounts s"
    and run: "extract_with_windows_mount h img dir s =
                ensure ?C (unmount_finally h img (Some (strip out))) s0"
    using mounted_run[OF assms(1-3), of s] by blast
  have "emits ?P ?C"
    by (intro emits_catch emits_copy_from_drive emits_then_do emits_log emits_ret)
      (simp_all add: is_unmount_def)
  then have "unmounts (snd (?C s0)) = unmounts s0"
    by (rule unmounts_emits)
  then show ?thesis
    using run s0 unmount_finally_once[OF assms(1) assms(4), of img "snd (?C s0)"]
    by (simp add: ensure_snd)
qed

lemma copy_from_drive_stop:
  assumes "cb_quiet h" and "d \<noteq> []" and "walk h (d @ '':'' @ sep) = Inr tree"
    and "k < tree_polls tree" and "stop_requested h (polls s + k)"
  shows "fst (copy_from_drive h d dir s) \<noteq> Inr True \<and>
         polls (snd (copy_from_drive h d dir s)) \<le> polls s + k + 1 \<and>
         copies (snd (copy_from_drive h d dir s)) \<le> copies s + k"
proof -
  let ?s1 = "emit (Log ''ISO mounted at drive {drive_letter}:'' [S d] None)
               (s\<lparr>logs := Suc (logs s)\<rparr>)"
  let ?K = "\<lambda>r. case r of
                  Some b \<Rightarrow> ret b
                | None \<Rightarrow>
                    then_do (log h ''ISO extraction completed successfully'' [] None)
                      (ret True)"
  obtain r s2 where tree:
    "copy_tree h (d @ '':'' @ sep) dir (count_files tree) tree 0 ?s1 = (r, s2)"
    by (cases "copy_tree h (d @ '':'' @ sep) dir (count_files tree) tree 0 ?s1")
  have p1: "polls ?s1 = polls s" and c1: "copies ?s1 = copies s"
    by (simp_all add: emit_def copies_def is_copy_def)
  have stop: "stop_requested h (polls ?s1 + k)" using assms(5) p1 by simp
  have loop: "r \<noteq> Inr None" "polls s2 \<le> polls s + k + 1" "copies s2 \<le> copies s + k"
    using copy_tree_stop[OF assms(4) stop, of "d @ '':'' @ sep" dir "count_files tree" 0]
      tree p1 c1 by simp_all
  have noTrue: "r \<noteq> Inr (Some True)"
    using copy_tree_not_True[of h "d @ '':'' @ sep" dir "count_files tree" tree 0 ?s1] tree
    by simp
  have run: "copy_from_drive h d dir s = and_then (\<lambda>x. (r, s2)) ?K s"
    using assms(1-3) tree
    by (simp add: copy_from_drive_def handle_subprocess_def log_quiet and_then_def do_walk_def
        Let_def)
  show ?thesis
  proof (cases r)
    case (Inl e)
    then show ?thesis using run loop by (simp add: and_then_def)
  next
    case (Inr v)
    then obtain b where "v = Some b" using loop(1) by (cases v) auto
    then show ?thesis
      using run Inr loop noTrue by (simp add: and_then_def ret_def)
  qed
qed

lemma extract_with_windows_mount_stops:
  assumes "cb_quiet h" and "makedirs h dir = None"
    and "run h (MountDiskImage img) = Inr (0, out)" and "strip out \<noteq> []"
    and "walk h (strip out @ '':'' @ sep) = Inr tree"
    and "k < tree_polls tree"
    and "stop_requested h (polls s + k)"
  shows "fails (fst (extract_with_windows_mount h img dir s)) \<and>
         polls (snd (extract_with_windows_mount h img dir s)) \<le> polls s + k + 1 \<and>
         copies (snd (extract_with_windows_mount h img dir s)) \<le> copies s + k \<and>
         unmounts (snd (extract_with_windows_mount h img dir s)) = unmounts s + 1"
proof -
  let ?H = "\<lambda>e. then_do (log h ''Error extracting with Windows mount: {e}'' [E e] (Some 0))
                  (ret False)"
  let ?D = "copy_from_drive h (strip out) dir"
  let ?C = "catch ?D ?H"
  let ?F = "unmount_finally h img (Some (strip out))"
  obtain s0 where s0: "polls s0 = polls s" "copies s0 = copies s"
    and run: "extract_with_windows_mount h img dir s = ensure ?C ?F s0"
    using mounted_run[OF assms(1-3), of s] by blast
  have stop: "stop_requested h (polls s0 + k)" using assms(7) s0(1) by simp
  have drive: "fst (?D s0) \<noteq> Inr True" "polls (snd (?D s0)) \<le> polls s + k + 1"
      "copies (snd (?D s0)) \<le> copies s + k"
    using copy_from_drive_stop[OF assms(1) assms(4) assms(5) assms(6) stop, of dir] s0
    by simp_all
  have handler_steady: "steady (?H e)" for e
    by (intro steady_then_do steady_log steady_ret)
  have handler_copy: "emits (\<lambda>e. \<not> is_copy e) (?H e)" for e
    by (intro emits_then_do emits_log emits_ret) (simp add: is_copy_def)
  have pC: "polls (snd (?C s0)) = polls (snd (?D s0))"
    using polls_catch[of ?H ?D s0, OF handler_steady] .
  obtain es where "events (snd (?C s0)) = events (snd (?D s0)) @ es"
      "list_all (\<lambda>e. \<not> is_copy e) es"
    using catch_ext[of "\<lambda>e. \<not> is_copy e" ?H ?D s0, OF handler_copy] by blast
  then have cC: "copies (snd (?C s0)) = copies (snd (?D s0))"
    by (simp add: copies_def list_all_iff)
  have pF: "polls (snd (?F x)) = polls x" for x
    by (rule steadyD) (rule steady_unmount_finally)
  have "emits (\<lambda>e. \<not> is_copy e) ?F"
    by (rule emits_unmount_finally) (simp_all add: is_copy_def)
  then have cF: "copies (snd (?F x)) = copies x" for x
    by (rule copies_emits)
  have "fails (fst (?C s0))"
    using drive(1) by (intro fails_catch handler_fails[OF assms(1)])
  then have "fails (fst (ensure ?C ?F s0))"
    by (rule fails_ensure) (rule contained_unmount_finally[OF assms(1)])
  then show ?thesis
    using run drive pC cC pF cF mount_released[OF assms(1-4), of s]
    by (simp add: ensure_snd)
qed

subsection \<open>The choice of the extraction strategy\<close>

lemma extract_iso_mounts:
  assumes "cb_quiet h" and "find (fs s) (sevenzip_paths h) = None"
  shows "extract_iso h img dir s =
           extract_with_windows_mount h img dir
             (emit (Log ''Extracting ISO: {iso_path} to {extract_dir}'' [S img, S dir] None)
                (s\<lparr>logs := Suc (logs s)\<rparr>))"
  using assms
  by (simp add: extract_iso_def then_do_def and_then_def log_quiet find_7zip_def snapshot_def
      ret_def emit_def)

subsection \<open>Download\<close>

lemma download_file_failure:
  assumes "cb_quiet h"
    and "download_file_try h url dest cbk
           (emit (Log ''Downloading {url} to {destination}'' [S url, S dest] None)
              (s\<lparr>logs := Suc (logs s)\<rparr>)) = (Inl e, s1)"
    and "is_exception e"
  shows "fst (download_file h url dest cbk s) = Inr False \<and>
         fs (snd (download_file h url dest cbk s)) dest = (fs s1 dest \<and> unlink h dest \<noteq> None) \<and>
         (fs s1 dest \<longrightarrow> last (events (snd (download_file h url dest cbk s))) = Unlink dest)"
  using assms
  by (simp add: download_file_def then_do_def and_then_def log_quiet catch_def handle_def
      path_exists_def catch_all_def do_unlink_def issue_def set_fs_def ret_def emit_def
      split: option.split)

lemma download_cancelled:
  assumes "makedirs h (dirname h dest) = None"
    and "open_error (urlretrieve h url dest) = None"
    and "hook_calls (urlretrieve h url dest) = c # cs"
    and "stop_requested h (polls s)"
  shows "fst (download_file_try h url dest cbk s) = Inl (PyException ''Download canceled by user'') \<and>
         fs (snd (download_file_try h url dest cbk s)) dest"
  using assms
  by (cases c)
    (simp add: download_file_try_def then_do_def and_then_def do_makedirs_def issue_def
      set_fs_def do_urlretrieve_def Let_def report_progress_def poll_def raise_def emit_def)

subsection \<open>The build thread and the stop flag\<close>

lemma steady_app_log [steady_intros]: "steady (app_log h m as)"
  by (simp add: app_log_def steady_intros)

lemma steady_update_progress [steady_intros]: "steady (update_progress h v)"
  by (simp add: update_progress_def steady_intros)

lemma steady_copy_tools [steady_intros]: "steady (copy_tools h d tools)"
  by (induction tools) (auto simp add: Let_def intro!: steady_intros)

lemma stop_clear_same [simp]: "stop_clear h a a"
  by (simp add: stop_clear_def)

lemma stop_clear_trans:
  assumes "a \<le> b" and "b \<le> c" and "stop_clear h a b" and "stop_clear h b c"
  shows "stop_clear h a c"
proof -
  have "[a..<c] = [a..<b] @ [b..<c]"
    using assms(1,2) by (metis le_Suc_ex upt_add_eq_append)
  then show ?thesis
    using assms(3,4) by (simp add: stop_clear_def)
qed

lemma stop_clear_found:
  assumes "stop_clear h a b" and "a \<le> n" and "n < b"
  shows "\<not> stop_build h n"
  using assms by (simp add: stop_clear_def list_all_iff)

lemma trackedD:
  "tracked h B m \<Longrightarrow>
     polls s \<le> polls (snd (m s)) \<and>
     (stop_clear h (polls s) (polls (snd (m s))) \<or> fst (m s) \<in> B)"
  by (simp add: tracked_def)

lemma tracked_steady: "steady m \<Longrightarrow> tracked h B m"
  by (simp add: tracked_def steady_def)

lemma tracked_weaken: "tracked h B m \<Longrightarrow> B \<subseteq> B' \<Longrightarrow> tracked h B' m"
  unfolding tracked_def by blast

lemma tracked_poll_build: "tracked h {Inr True} (poll_build h)"
  by (simp add: tracked_def poll_build_def stop_clear_def)

lemma tracked_seq:
  assumes m: "tracked h B1 m"
    and go: "\<And>v. Inr v \<notin> B1 \<Longrightarrow> tracked h B2 (k v)"
    and halt: "\<And>v. Inr v \<in> B1 \<Longrightarrow> steady (k v) \<and> (\<forall>s. fst (k v s) \<in> B2)"
    and pass: "\<And>e. Inl e \<in> B1 \<Longrightarrow> Inl e \<in> B2"
  shows "tracked h B2 (and_then m k)"
  unfolding tracked_def
proof
  fix s
  obtain r s1 where ms: "m s = (r, s1)" by (cases "m s")
  have 1: "polls s \<le> polls s1" "stop_clear h (polls s) (polls s1) \<or> r \<in> B1"
    using trackedD[OF m, of s] ms by simp_all
  show "polls s \<le> polls (snd (and_then m k s)) \<and>
        (stop_clear h (polls s) (polls (snd (and_then m k s))) \<or> fst (and_then m k s) \<in> B2)"
  proof (cases r)
    case (Inl e)
    then show ?thesis
      using ms 1 pass[of e] by (auto simp add: and_then_def)
  next
    case (Inr v)
    show ?thesis
    proof (cases "Inr v \<in> B1")
      case True
      have "polls (snd (k v s1)) = polls s1" "fst (k v s1) \<in> B2"
        using halt[OF True] by (simp_all add: steady_def)
      then show ?thesis
        using ms Inr 1 by (simp add: and_then_def)
    next
      case False
      then have clear: "stop_clear h (polls s) (polls s1)" using 1(2) Inr by simp
      have 2: "polls s1 \<le> polls (snd (k v s1))"
          "stop_clear h (polls s1) (polls (snd (k v s1))) \<or> fst (k v s1) \<in> B2"
        using trackedD[OF go[OF False], of s1] by simp_all
      have "stop_clear h (polls s) (polls (snd (k v s1))) \<or> fst (k v s1) \<in> B2"
        using 2(2) stop_clear_trans[OF 1(1) 2(1) clear] by blast
      then show ?thesis
        using ms Inr 1(1) 2(1) by (simp add: and_then_def)
    qed
  qed
qed

lemma tracked_after:
  assumes "steady m" and "\<And>v. tracked h B (k v)"
  shows "tracked h B (and_then m k)"
proof (rule tracked_seq[where ?B1.0 = "{}"])
  show "tracked h {} m" using assms(1) by (rule tracked_steady)
qed (simp_all add: assms(2))

lemma tracked_then: "steady m \<Longrightarrow> tracked h B k \<Longrightarrow> tracked h B (then_do m k)"
  by (simp add: then_do_def tracked_after)

lemma tracked_extract_steps: "tracked h {Inr (Some False)} (extract_steps h is)"
proof (induction "is")
  case Nil
  show ?case by (simp add: tracked_steady steady_ret)
next
  case (Cons i rest)
  show ?case
    unfolding extract_steps.simps
  proof (rule tracked_seq[OF tracked_poll_build])
    fix v :: bool
    assume "Inr v \<notin> ({Inr True} :: (exn + bool) set)"
    then have "\<not> v" by simp
    then show "tracked h {Inr (Some False)}
                 (if v then ret (Some False)
                  else then_do (app_log h ''Extracting files (step {i+1}/5)...'' [I (int i + 1)])
                         (extract_steps h rest))"
      using Cons.IH by (simp add: tracked_then steady_app_log)
  next
    fix v :: bool
    assume "Inr v \<in> ({Inr True} :: (exn + bool) set)"
    then show "steady (if v then ret (Some False)
                       else then_do (app_log h ''Extracting files (step {i+1}/5)...''
                                       [I (int i + 1)])
                              (extract_steps h rest)) \<and>
               (\<forall>s. fst ((if v then ret (Some False)
                          else then_do (app_log h ''Extracting files (step {i+1}/5)...''
                                          [I (int i + 1)])
                                 (extract_steps h rest)) s) \<in> {Inr (Some False)})"
      by (simp add: steady_ret ret_def)
  qed simp
qed

lemma tracked_rebuild_steps: "tracked h {Inr (Some False)} (rebuild_steps h n is)"
proof (induction "is")
  case Nil
  show ?case by (simp add: tracked_steady steady_ret)
next
  case (Cons i rest)
  show ?case
    unfolding rebuild_steps.simps
  proof (rule tracked_seq[OF tracked_poll_build])
    fix v :: bool
    assume "Inr v \<notin> ({Inr True} :: (exn + bool) set)"
    then have "\<not> v" by simp
    then show "tracked h {Inr (Some False)}
                 (if v then ret (Some False)
                  else then_do (app_log h ''Rebuilding ISO (step {i+1}/{total_steps})...''
                                  [I (int i + 1), I n])
                         (then_do (update_progress h (50 + int i * 5))
                            (rebuild_steps h n rest)))"
      using Cons.IH by (simp add: tracked_then steady_app_log steady_update_progress)
  next
    fix v :: bool
    assume "Inr v \<in> ({Inr True} :: (exn + bool) set)"
    then show "steady (if v then ret (Some False)
                       else then_do (app_log h ''Rebuilding ISO (step {i+1}/{total_steps})...''
                                       [I (int i + 1), I n])
                              (then_do (update_progress h (50 + int i * 5))
                                 (rebuild_steps h n rest))) \<and>
               (\<forall>s. fst ((if v then ret (Some False)
                          else then_do (app_log h ''Rebuilding ISO (step {i+1}/{total_steps})...''
                                          [I (int i + 1), I n])
                                 (then_do (update_progress h (50 + int i * 5))
                                    (rebuild_steps h n rest))) s) \<in> {Inr (Some False)})"
      by (simp add: steady_ret ret_def)
  qed simp
qed

lemma tracked_app_extract_iso: "tracked h {Inr False} (app_extract_iso h img dir)"
  unfolding app_extract_iso_def
proof (rule tracked_then[OF steady_app_log], rule tracked_seq[OF tracked_extract_steps])
  fix v :: "bool option"
  assume "Inr v \<notin> ({Inr (Some False)} :: (exn + bool option) set)"
  show "tracked h {Inr False}
          (case v of
             None \<Rightarrow>
               then_do (do_makedirs h (path_join h [dir, ''live'']))
                 (then_do (do_makedirs h (path_join h [dir, ''boot'']))
                    (then_do (do_makedirs h (path_join h [dir, ''EFI''])) (ret True)))
           | Some b \<Rightarrow> ret b)"
    by (rule tracked_steady) (auto intro!: steady_intros split: option.split)
next
  fix v :: "bool option"
  assume "Inr v \<in> ({Inr (Some False)} :: (exn + bool option) set)"
  then have "v = Some False" by simp
  then show "steady (case v of
                 None \<Rightarrow>
                   then_do (do_makedirs h (path_join h [dir, ''live'']))
                     (then_do (do_makedirs h (path_join h [dir, ''boot'']))
                        (then_do (do_makedirs h (path_join h [dir, ''EFI''])) (ret True)))
               | Some b \<Rightarrow> ret b) \<and>
             (\<forall>s. fst ((case v of
                 None \<Rightarrow>
                   then_do (do_makedirs h (path_join h [dir, ''live'']))
                     (then_do (do_makedirs h (path_join h [dir, ''boot'']))
                        (then_do (do_makedirs h (path_join h [dir, ''EFI''])) (ret True)))
               | Some b \<Rightarrow> ret b) s) \<in> {Inr False})"
    by (simp add: steady_ret ret_def)
qed simp

lemma tracked_app_rebuild_iso: "tracked h {Inr False} (app_rebuild_iso h src out)"
  unfolding app_rebuild_iso_def Let_def
proof (rule tracked_then[OF steady_app_log], rule tracked_seq[OF tracked_rebuild_steps])
  fix v :: "bool option"
  assume "Inr v \<notin> ({Inr (Some False)} :: (exn + bool option) set)"
  show "tracked h {Inr False}
          (case v of None \<Rightarrow> then_do (do_write h out) (ret True) | Some b \<Rightarrow> ret b)"
    by (rule tracked_steady) (auto intro!: steady_intros split: option.split)
next
  fix v :: "bool option"
  assume "Inr v \<in> ({Inr (Some False)} :: (exn + bool option) set)"
  then have "v = Some False" by simp
  then show "steady (case v of None \<Rightarrow> then_do (do_write h out) (ret True) | Some b \<Rightarrow> ret b) \<and>
             (\<forall>s. fst ((case v of None \<Rightarrow> then_do (do_write h out) (ret True)
                                 | Some b \<Rightarrow> ret b) s) \<in> {Inr False})"
    by (simp add: steady_ret ret_def)
qed simp

lemma tracked_checkpoint: "tracked h stop_outcomes (checkpoint h key w)"
  unfolding checkpoint_def
proof (rule tracked_seq[OF tracked_poll_build])
  fix v :: bool
  assume "Inr v \<notin> ({Inr True} :: (exn + bool) set)"
  then have "\<not> v" by simp
  then show "tracked h stop_outcomes
               (if v then raise (PyException ''Build process stopped by user'')
                else then_do (update_progress h (w + weight key)) (ret (w + weight key)))"
    by (simp add: tracked_steady steady_then_do steady_update_progress steady_ret)
next
  fix v :: bool
  assume "Inr v \<in> ({Inr True} :: (exn + bool) set)"
  then show "steady (if v then raise (PyException ''Build process stopped by user'')
                     else then_do (update_progress h (w + weight key)) (ret (w + weight key))) \<and>
             (\<forall>s. fst ((if v then raise (PyException ''Build process stopped by user'')
                        else then_do (update_progress h (w + weight key))
                               (ret (w + weight key))) s) \<in> stop_outcomes)"
    by (simp add: steady_raise raise_def stop_outcomes_def)
qed simp

lemma tracked_stage_extract: "tracked h stop_outcomes (stage_extract h a)"
  unfolding stage_extract_def
proof (intro tracked_then steady_app_log steady_update_progress steady_do_makedirs,
    rule tracked_seq[OF tracked_app_extract_iso])
  fix v :: bool
  assume "Inr v \<notin> ({Inr False} :: (exn + bool) set)"
  then have "v" by simp
  then show "tracked h stop_outcomes
               (if \<not> v then raise (PyException ''Failed to extract ISO'')
                else checkpoint h ''extract_iso'' 0)"
    by (simp add: tracked_checkpoint)
next
  fix v :: bool
  assume "Inr v \<in> ({Inr False} :: (exn + bool) set)"
  then show "steady (if \<not> v then raise (PyException ''Failed to extract ISO'')
                     else checkpoint h ''extract_iso'' 0) \<and>
             (\<forall>s. fst ((if \<not> v then raise (PyException ''Failed to extract ISO'')
                        else checkpoint h ''extract_iso'' 0) s) \<in> stop_outcomes)"
    by (simp add: steady_raise raise_def stop_outcomes_def)
qed simp

lemma tracked_stage_tools: "tracked h stop_outcomes (stage_tools h a w)"
  unfolding stage_tools_def Let_def
  by (intro tracked_then steady_app_log steady_do_makedirs steady_copy_tools tracked_checkpoint)

lemma tracked_stage_customize: "tracked h stop_outcomes (stage_customize h a w)"
  unfolding stage_customize_def Let_def
  by (intro tracked_then steady_app_log steady_do_makedirs steady_do_write tracked_checkpoint)
    (auto intro!: steady_intros)

lemma tracked_stage_rebuild: "tracked h stop_outcomes (stage_rebuild h a w)"
  unfolding stage_rebuild_def
proof (rule tracked_then[OF steady_app_log], rule tracked_seq[OF tracked_app_rebuild_iso])
  fix v :: bool
  assume "Inr v \<notin> ({Inr False} :: (exn + bool) set)"
  then have "v" by simp
  then show "tracked h stop_outcomes
     (if \<not> v then raise (PyException ''Failed to rebuild ISO'')
      else then_do (update_progress h (w + weight ''rebuild_iso''))
       (then_do (if vhd_format a
                 then app_log h ''Creating VHD format (not implemented in this version)'' []
                 else ret ())
       (then_do (if ami_format a
                 then app_log h ''Creating AMI format (not implemented in this version)'' []
                 else ret ())
       (then_do (app_log h ''Cleaning up temporary files...'' [])
       (then_do (update_progress h 100)
       (then_do (app_log h ''Build completed successfully! Output saved to {output_iso}''
                   [S (output_iso_of h a)])
       (then_do (gui_call h (ShowInfo ''Build Complete''
                               ''Custom Kali ISO created successfully at:{output_iso}''
                               [S (output_iso_of h a)]))
          (ret (w + weight ''rebuild_iso'' + weight ''cleanup'')))))))))"
    by (auto intro!: tracked_steady steady_intros)
next
  fix v :: bool
  assume "Inr v \<in> ({Inr False} :: (exn + bool) set)"
  then show "steady
     (if \<not> v then raise (PyException ''Failed to rebuild ISO'')
      else then_do (update_progress h (w + weight ''rebuild_iso''))
       (then_do (if vhd_format a
                 then app_log h ''Creating VHD format (not implemented in this version)'' []
                 else ret ())
       (then_do (if ami_format a
                 then app_log h ''Creating AMI format (not implemented in this version)'' []
                 else ret ())
       (then_do (app_log h ''Cleaning up temporary files...'' [])
       (then_do (update_progress h 100)
       (then_do (app_log h ''Build completed successfully! Output saved to {output_iso}''
                   [S (output_iso_of h a)])
       (then_do (gui_call h (ShowInfo ''Build Complete''
                               ''Custom Kali ISO created successfully at:{output_iso}''
                               [S (output_iso_of h a)]))
          (ret (w + weight ''rebuild_iso'' + weight ''cleanup''))))))))) \<and>
     (\<forall>s. fst ((if \<not> v then raise (PyException ''Failed to rebuild ISO'')
      else then_do (update_progress h (w + weight ''rebuild_iso''))
       (then_do (if vhd_format a
                 then app_log h ''Creating VHD format (not implemented in this version)'' []
                 else ret ())
       (then_do (if ami_format a
                 then app_log h ''Creating AMI format (not implemented in this version)'' []
                 else ret ())
       (then_do (app_log h ''Cleaning up temporary files...'' [])
       (then_do (update_progress h 100)
       (then_do (app_log h ''Build completed successfully! Output saved to {output_iso}''
                   [S (output_iso_of h a)])
       (then_do (gui_call h (ShowInfo ''Build Complete''
                               ''Custom Kali ISO created successfully at:{output_iso}''
                               [S (output_iso_of h a)]))
          (ret (w + weight ''rebuild_iso'' + weight ''cleanup''))))))))) s) \<in> stop_outcomes)"
    by (simp add: steady_raise raise_def stop_outcomes_def)
qed simp

lemma stop_outcomes_Inr [simp]: "Inr v \<notin> stop_outcomes"
  by (simp add: stop_outcomes_def)

lemma tracked_build_thread_try: "tracked h stop_outcomes (build_thread_try h a)"
  unfolding build_thread_try_def
  by (intro tracked_seq[OF tracked_stage_extract] tracked_seq[OF tracked_stage_tools]
      tracked_seq[OF tracked_stage_customize] tracked_stage_rebuild)
    simp_all

lemma build_thread_reports:
  assumes "build_thread_try h a s = (Inl e, s1)" and "is_exception e"
  shows "\<exists>es. events (snd (build_thread h a s)) =
               events s1 @ LoggerError ''Build failed: {e}'' [E e] # es \<and>
              (gui h (LoggerError ''Build failed: {e}'' [E e]) = None \<longrightarrow>
                 (\<exists>es'. es = ShowError ''Build Failed'' ''Failed to build custom ISO: {e}'' [E e]
                            # es'))"
proof -
  let ?F = "then_do (gui_call h (ConfigButton ''build_button'' ''NORMAL''))
              (gui_call h (ConfigButton ''stop_button'' ''DISABLED''))"
  let ?H = "then_do (gui_call h (LoggerError ''Build failed: {e}'' [E e]))
              (gui_call h (ShowError ''Build Failed'' ''Failed to build custom ISO: {e}'' [E e]))"
  have "emits (\<lambda>e. True) ?F"
    by (intro emits_then_do emits_gui_call) simp_all
  then obtain es2 where F: "events (snd (?F (snd (?H s1)))) = events (snd (?H s1)) @ es2"
    using emitsD[of "\<lambda>e. True" ?F "snd (?H s1)"] by blast
  have run: "snd (build_thread h a s) = snd (?F (snd (?H s1)))"
    using assms
    by (simp add: build_thread_def ensure_snd catch_def handle_def and_then_def)
  show ?thesis
  proof (cases "gui h (LoggerError ''Build failed: {e}'' [E e])")
    case None
    then have "events (snd (?H s1)) =
        events s1 @ [LoggerError ''Build failed: {e}'' [E e],
                     ShowError ''Build Failed'' ''Failed to build custom ISO: {e}'' [E e]]"
      by (simp add: then_do_def and_then_def gui_call_def issue_def emit_def)
    then show ?thesis using run F None by simp
  next
    case (Some x)
    then have "events (snd (?H s1)) = events s1 @ [LoggerError ''Build failed: {e}'' [E e]]"
      by (simp add: then_do_def and_then_def gui_call_def issue_def emit_def)
    then show ?thesis using run F Some by simp
  qed
qed

section \<open>The native masterer fails\<close>

text \<open>
  Claim C1, a run that contradicts it. The masterer is installed beside the script and
  its subprocess exits with code 137. \<open>create_iso\<close> returns \<open>False\<close>, and the only tool it
  has started is the masterer: neither the scripted tier nor the raw archive is tried.
\<close>

theorem killed_masterer_ends_creation:
  "fst (create_iso oscdimg_host ''src'' ''out.iso'' ''KALI_RTA'' oscdimg_world) = Inr False \<and>
   tool_events (snd (create_iso oscdimg_host ''src'' ''out.iso'' ''KALI_RTA'' oscdimg_world)) =
     [Popen (Argv [join_backslash [''app'', ''tools'', ''oscdimg.exe''],
                   ''-m'', ''-o'', ''-u2'', ''-lKALI_RTA'', ''src'', ''out.iso''])]"
  by (simp add: creation_defs comp_defs step_defs string_defs host_defs observation_defs Let_def)

text \<open>
  Claim C1, as the code has it. When the masterer is found and the callback does not
  raise, \<open>create_iso\<close> runs the native tier only: the one tool it starts is the masterer
  with the command line \<open>oscdimg_cmd\<close>, and when that subprocess exits with a code other
  than 0 the result is \<open>False\<close> (or an exception that is not an \<open>Exception\<close> passes). A
  failure of the native tier is final; no other tier follows it.
\<close>

theorem native_masterer_failure_is_final:
  assumes "cb_quiet h"
    and "fst (find_oscdimg h s) = Inr (Some path)"
    and "path \<noteq> []"
  shows "tool_events (snd (create_iso h src out label s)) =
           tool_events s @ [Popen (Argv (oscdimg_cmd h s path src out label))] \<and>
         (\<forall>pr. popen h (Argv (oscdimg_cmd h s path src out label)) = Inr pr \<and>
               returncode pr \<noteq> 0 \<longrightarrow>
               fails (fst (create_iso h src out label s)))"
proof -
  let ?P = "\<lambda>e. \<not> is_tool_event e"
  let ?s1 = "emit (Log ''Creating ISO from {source_dir} to {output_iso}'' [S src, S out] None)
               (s\<lparr>logs := Suc (logs s)\<rparr>)"
  let ?H = "\<lambda>e. then_do (log h ''Error creating ISO: {e}'' [E e] (Some 0)) (ret False)"
  let ?N = "create_iso_with_oscdimg h path src out label"
  let ?cmd = "oscdimg_cmd h s path src out label"
  have run: "create_iso h src out label s = catch ?N ?H ?s1"
    using create_iso_native[OF assms] .
  have cmd: "oscdimg_cmd h ?s1 path src out label = ?cmd"
    by (simp add: emit_def)
  obtain es1 where es1:
    "events (snd (?N ?s1)) =
       events ?s1 @
       [Log ''Creating ISO with oscdimg.exe...'' [] None,
        Log ''Running: {' '.join(cmd)}'' [Ss ?cmd] None,
        Popen (Argv ?cmd)] @ es1"
    "list_all ?P es1"
    using create_iso_with_oscdimg_quiet[OF assms(1), of path src out label ?s1] cmd by auto
  have handler: "emits ?P (?H e)" for e
    by (intro emits_then_do emits_log emits_ret) (simp add: is_tool_event_def)
  obtain es2 where es2:
    "events (snd (catch ?N ?H ?s1)) = events (snd (?N ?s1)) @ es2" "list_all ?P es2"
    using catch_ext[of ?P ?H ?N ?s1, OF handler] by blast
  have quiet: "filter is_tool_event es1 = []" "filter is_tool_event es2 = []"
    using es1(2) es2(2) by (simp_all add: list_all_iff)
  have tools: "tool_events (snd (create_iso h src out label s)) =
                 tool_events s @ [Popen (Argv ?cmd)]"
    using run es1(1) es2(1) quiet
    by (simp add: tool_events_def is_tool_event_def emit_def)
  have failure: "fails (fst (create_iso h src out label s))"
    if "popen h (Argv ?cmd) = Inr pr" and "returncode pr \<noteq> 0" for pr
  proof -
    have "fails (fst (?N ?s1))"
      using create_iso_with_oscdimg_fails[OF assms(1), of ?s1 path src out label pr] that cmd
      by simp
    then have "fst (?N ?s1) \<noteq> Inr True"
      by (rule fails_not_True)
    then have "fails (fst (catch ?N ?H ?s1))"
      by (intro fails_catch handler_fails[OF assms(1)])
    then show ?thesis using run by simp
  qed
  show ?thesis
    using tools failure by blast
qed

theorem native_masterer_failure_is_final_witness:
  "cb_quiet oscdimg_host \<and>
   fst (find_oscdimg oscdimg_host oscdimg_world) = Inr (Some (local_oscdimg oscdimg_host)) \<and>
   local_oscdimg oscdimg_host \<noteq> [] \<and>
   tool_events (snd (create_iso oscdimg_host ''src'' ''out.iso'' ''KALI_RTA'' oscdimg_world)) =
     tool_events oscdimg_world @
     [Popen (Argv (oscdimg_cmd oscdimg_host oscdimg_world (local_oscdimg oscdimg_host)
                     ''src'' ''out.iso'' ''KALI_RTA''))] \<and>
   fails (fst (create_iso oscdimg_host ''src'' ''out.iso'' ''KALI_RTA'' oscdimg_world))"
proof -
  have a: "cb_quiet oscdimg_host"
    by (simp add: cb_quiet_def host_defs)
  have b: "fst (find_oscdimg oscdimg_host oscdimg_world) =
             Inr (Some (local_oscdimg oscdimg_host))"
    by (simp add: creation_defs comp_defs step_defs string_defs host_defs)
  have c: "local_oscdimg oscdimg_host \<noteq> []"
    by (simp add: local_oscdimg_def host_defs)
  have d: "popen oscdimg_host
             (Argv (oscdimg_cmd oscdimg_host oscdimg_world (local_oscdimg oscdimg_host)
                      ''src'' ''out.iso'' ''KALI_RTA'')) =
           Inr (idle_process\<lparr>returncode := 137, stderr_text := ''killed''\<rparr>)"
    by (simp add: oscdimg_host_def quiet_host_def)
  have e: "returncode (idle_process\<lparr>returncode := 137, stderr_text := ''killed''\<rparr>) \<noteq> 0"
    by simp
  show ?thesis
    using a b c d e
      native_masterer_failure_is_final[OF a b c, of "''src''" "''out.iso''" "''KALI_RTA''"]
    by blast
qed

section \<open>The progress of a build\<close>


section \<open>Mount and unmount\<close>

text \<open>
  Claim C3, a run that contradicts it. The mount succeeds with the drive letter \<open>E\<close>, the
  volume is empty, and the callback raises when it is called with the message about
  unmounting. In the \<open>finally\<close> block that \<open>log\<close> call stands in the same \<open>try\<close> as the
  unmount command and before it, so the command is not issued: the strategy returns
  \<open>True\<close> after a successful mount and no unmount.
\<close>

theorem unmount_skipped_when_log_raises:
  "fst (extract_with_windows_mount unmount_log_host ''kali.iso'' ''out'' empty_world) = Inr True \<and>
   events (snd (extract_with_windows_mount unmount_log_host ''kali.iso'' ''out'' empty_world)) =
     [Log ''Mounting ISO using Windows built-in functionality...'' [] None,
      Makedirs ''out'',
      Run (MountDiskImage ''kali.iso''),
      Log ''ISO mounted at drive {drive_letter}:'' [S ''E''] None,
      Log ''ISO extraction completed successfully'' [] None,
      Log ''Unmounting ISO from drive {drive_letter}:'' [S ''E''] None,
      Log ''Error unmounting ISO: {e}'' [E (PyException ''window closed'')] None] \<and>
   unmounts (snd (extract_with_windows_mount unmount_log_host ''kali.iso'' ''out'' empty_world)) = 0"
  by (simp add: extraction_defs comp_defs step_defs string_defs host_defs observation_defs Let_def)

section \<open>Stopping an extraction\<close>




section \<open>Neither tool is installed\<close>




section \<open>A stopped build\<close>




section \<open>What the extraction strategies return\<close>




section \<open>The progress of the copy\<close>

text \<open>
  Claim C8, a step that contradicts it. The progress is computed with floats, as
  \<open>int((copied_files / total_files) * 100)\<close>. For the file number 2900 of 5000, at which
  an event is due, the quotient \<open>0.58\<close> is not a float, the product of the nearest float
  with 100 is a float below 58, and the event carries 57. The integer part of
  \<open>2900 / 5000 * 100\<close> is 58.
\<close>

theorem progress_truncates_float:
  "copy_step quiet_host src dst 5000 2899 empty_world =
     (Inr 2900,
      \<lparr>events = [Copy2 src dst,
                 Log ''Copying files: {copied_files}/{total_files} ({progress}%)''
                   [I 2900, I 5000, I 57] (Some 57)],
       polls = 0, logs = 1, fs = (\<lambda>p. p = dst)\<rparr>) \<and>
   (2900 * 100) div (5000 :: nat) = 58"
  by (simp add: extraction_defs comp_defs step_defs float_defs host_defs Let_def fun_eq_iff)

section \<open>The native masterer's command line\<close>

text \<open>
  Claim C9. Every invocation of the native masterer strategy logs its start, then, unless
  the callback has raised, logs the command line \<open>oscdimg_cmd\<close>, and then, unless the
  callback has raised, spawns exactly this command line. That command line always holds
  \<open>-m\<close>, \<open>-o\<close>, \<open>-u2\<close> and \<open>-l\<close> followed by the volume label. Of the boot files under
  \<open>source_dir/boot\<close>, \<open>etfsboot.com\<close> is looked for before \<open>efisys.bin\<close> and only the first
  one found counts: it adds \<open>-b\<close> and its path, and \<open>-e -u1\<close> exactly when its lower-cased
  name contains \<open>efi\<close>, which holds for \<open>efisys.bin\<close> and not for \<open>etfsboot.com\<close>.
\<close>

theorem oscdimg_command_line:
  "(\<exists>es. events (snd (create_iso_with_oscdimg h p src out label s)) =
          events s @
          [Log ''Creating ISO with oscdimg.exe...'' [] None] @
          (if callback h (logs s) = None
           then [Log ''Running: {' '.join(cmd)}'' [Ss (oscdimg_cmd h s p src out label)] None] @
                (if callback h (Suc (logs s)) = None
                 then [Popen (Argv (oscdimg_cmd h s p src out label))] else [])
           else []) @ es) \<and>
   ''-m'' \<in> set (oscdimg_cmd h s p src out label) \<and>
   ''-o'' \<in> set (oscdimg_cmd h s p src out label) \<and>
   ''-u2'' \<in> set (oscdimg_cmd h s p src out label) \<and>
   ''-l'' @ label \<in> set (oscdimg_cmd h s p src out label) \<and>
   oscdimg_cmd h s p src out label =
     [p, ''-m'', ''-o'', ''-u2'', ''-l'' @ label]
       @ (if fs s (path_join h [src, ''boot'', ''etfsboot.com''])
          then [''-b'', path_join h [src, ''boot'', ''etfsboot.com'']]
          else if fs s (path_join h [src, ''boot'', ''efisys.bin''])
          then [''-b'', path_join h [src, ''boot'', ''efisys.bin''], ''-e'', ''-u1'']
          else [])
       @ [src, out] \<and>
   oscdimg_boot_args h s src boot_files =
     (case find (\<lambda>f. fs s (path_join h [src, ''boot'', f])) boot_files of
        None \<Rightarrow> []
      | Some f \<Rightarrow> [''-b'', path_join h [src, ''boot'', f]] @
                  (if contains (lower f) ''efi'' then [''-e'', ''-u1''] else [])) \<and>
   \<not> contains (lower ''etfsboot.com'') ''efi'' \<and>
   contains (lower ''efisys.bin'') ''efi''"
proof -
  have cmd: "oscdimg_cmd h s p src out label =
     [p, ''-m'', ''-o'', ''-u2'', ''-l'' @ label]
       @ (if fs s (path_join h [src, ''boot'', ''etfsboot.com''])
          then [''-b'', path_join h [src, ''boot'', ''etfsboot.com'']]
          else if fs s (path_join h [src, ''boot'', ''efisys.bin''])
          then [''-b'', path_join h [src, ''boot'', ''efisys.bin''], ''-e'', ''-u1'']
          else [])
       @ [src, out]"
    by (simp add: oscdimg_cmd_def boot_files_def Let_def boot_file_names)
  have flags: "''-m'' \<in> set (oscdimg_cmd h s p src out label)"
    "''-o'' \<in> set (oscdimg_cmd h s p src out label)"
    "''-u2'' \<in> set (oscdimg_cmd h s p src out label)"
    "''-l'' @ label \<in> set (oscdimg_cmd h s p src out label)"
    by (simp_all add: oscdimg_cmd_def)
  have names: "\<not> contains (lower ''etfsboot.com'') ''efi''" "contains (lower ''efisys.bin'') ''efi''"
    using boot_file_names by simp_all
  show ?thesis
    using create_iso_with_oscdimg_starts[of h p src out label s] cmd flags names
      oscdimg_boot_args_find[of h s src boot_files]
    by (intro conjI) assumption+
qed

section \<open>A failed download\<close>

text \<open>
  Claim C10, a run that contradicts it. The transfer breaks after the first block, when
  the destination file exists, and the file cannot be deleted. \<open>download_file\<close> calls
  \<open>os.unlink\<close>, swallows its error and returns \<open>False\<close>: the partial file remains.
\<close>

theorem partial_download_remains:
  "fst (download_file broken_download_host ''http://x'' ''dl/kali.iso'' False empty_world) =
     Inr False \<and>
   last (events (snd (download_file broken_download_host ''http://x'' ''dl/kali.iso'' False
                        empty_world))) = Unlink ''dl/kali.iso'' \<and>
   fs (snd (download_file broken_download_host ''http://x'' ''dl/kali.iso'' False empty_world))
     ''dl/kali.iso''"
  by (simp add: download_defs comp_defs step_defs float_defs host_defs Let_def)

text \<open>
  Claim C10, as the code has it. The callback is assumed not to raise. When the \<open>try\<close>
  block of \<open>download_file\<close> raises an exception of class \<open>Exception\<close>, the function returns
  \<open>False\<close>; if the destination file exists at that moment the last call of the function is
  \<open>os.unlink\<close> on it, and the file exists afterwards exactly if it existed and that call
  failed. A stop request seen by the first call of the progress hook is such an exception:
  the function returns \<open>False\<close>, and the file that the transfer has created remains exactly
  if \<open>os.unlink\<close> fails.
\<close>

theorem failed_download_outcome:
  assumes "cb_quiet h"
  shows "(\<forall>e s1. download_file_try h url dest cbk
                   (emit (Log ''Downloading {url} to {destination}'' [S url, S dest] None)
                      (s\<lparr>logs := Suc (logs s)\<rparr>)) = (Inl e, s1) \<and>
                 is_exception e \<longrightarrow>
            fst (download_file h url dest cbk s) = Inr False \<and>
            fs (snd (download_file h url dest cbk s)) dest =
              (fs s1 dest \<and> unlink h dest \<noteq> None) \<and>
            (fs s1 dest \<longrightarrow>
               last (events (snd (download_file h url dest cbk s))) = Unlink dest)) \<and>
         (\<forall>c cs. makedirs h (dirname h dest) = None \<and>
                 open_error (urlretrieve h url dest) = None \<and>
                 hook_calls (urlretrieve h url dest) = c # cs \<and>
                 stop_requested h (polls s) \<longrightarrow>
            fst (download_file h url dest cbk s) = Inr False \<and>
            fs (snd (download_file h url dest cbk s)) dest = (unlink h dest \<noteq> None))"
proof -
  let ?s0 = "emit (Log ''Downloading {url} to {destination}'' [S url, S dest] None)
               (s\<lparr>logs := Suc (logs s)\<rparr>)"
  have failure:
    "fst (download_file h url dest cbk s) = Inr False \<and>
     fs (snd (download_file h url dest cbk s)) dest = (fs s1 dest \<and> unlink h dest \<noteq> None) \<and>
     (fs s1 dest \<longrightarrow> last (events (snd (download_file h url dest cbk s))) = Unlink dest)"
    if "download_file_try h url dest cbk ?s0 = (Inl e, s1) \<and> is_exception e" for e s1
    using download_file_failure[OF assms, of url dest cbk s e s1] that by blast
  have cancel:
    "fst (download_file h url dest cbk s) = Inr False \<and>
     fs (snd (download_file h url dest cbk s)) dest = (unlink h dest \<noteq> None)"
    if hyp: "makedirs h (dirname h dest) = None \<and>
             open_error (urlretrieve h url dest) = None \<and>
             hook_calls (urlretrieve h url dest) = c # cs \<and>
             stop_requested h (polls s)" for c cs
  proof -
    have "stop_requested h (polls ?s0)"
      using hyp by (simp add: emit_def)
    then have cancelled:
      "fst (download_file_try h url dest cbk ?s0) =
         Inl (PyException ''Download canceled by user'')"
      "fs (snd (download_file_try h url dest cbk ?s0)) dest"
      using download_cancelled[of h dest url c cs ?s0 cbk] hyp by simp_all
    obtain s1 where s1:
      "download_file_try h url dest cbk ?s0 =
         (Inl (PyException ''Download canceled by user''), s1)"
      "fs s1 dest"
      using cancelled by (cases "download_file_try h url dest cbk ?s0") simp
    have "is_exception (PyException ''Download canceled by user'')"
      by (simp add: is_exception_def)
    then show ?thesis
      using download_file_failure[OF assms s1(1)] s1(2) by simp
  qed
  show ?thesis
    using failure cancel by blast
qed

theorem failed_download_outcome_witness:
  "cb_quiet cancelled_download_host \<and>
   makedirs cancelled_download_host (dirname cancelled_download_host ''dl/kali.iso'') = None \<and>
   open_error (urlretrieve cancelled_download_host ''http://x'' ''dl/kali.iso'') = None \<and>
   hook_calls (urlretrieve cancelled_download_host ''http://x'' ''dl/kali.iso'') =
     [(0, 8192, 100000)] \<and>
   stop_requested cancelled_download_host (polls empty_world) \<and>
   fst (download_file cancelled_download_host ''http://x'' ''dl/kali.iso'' False empty_world) =
     Inr False \<and>
   fs (snd (download_file cancelled_download_host ''http://x'' ''dl/kali.iso'' False empty_world))
     ''dl/kali.iso'' = False"
proof -
  have a: "cb_quiet cancelled_download_host"
    by (simp add: cb_quiet_def host_defs)
  have b: "makedirs cancelled_download_host (dirname cancelled_download_host ''dl/kali.iso'') =
             None"
    by (simp add: host_defs)
  have c: "open_error (urlretrieve cancelled_download_host ''http://x'' ''dl/kali.iso'') = None"
    by (simp add: host_defs)
  have d: "hook_calls (urlretrieve cancelled_download_host ''http://x'' ''dl/kali.iso'') =
             [(0, 8192, 100000)]"
    by (simp add: host_defs)
  have e: "stop_requested cancelled_download_host (polls empty_world)"
    by (simp add: host_defs)
  have f: "unlink cancelled_download_host ''dl/kali.iso'' = None"
    by (simp add: host_defs)
  show ?thesis
    using a b c d e f
      failed_download_outcome[OF a, of "''http://x''" "''dl/kali.iso''" False empty_world]
    by auto
qed


end
